theory Spec2Isabelle
  imports Main
begin

text \<open>
  A shallow embedding of \<^verbatim>\<open>tasks.py\<close>, the news-collecting robot: the article record with
  its two queries, the parameters read from the work item, the computation of the cutoff
  date, and the traversal \<^verbatim>\<open>LATimesLogic.get_news\<close>. The browser, the clock and the
  conversion functions of the standard library are collaborators of the program: they are
  modelled by an explicit world state and by an environment of functions, and every
  exception the program can meet is a value.
\<close>

section \<open>Definitions\<close>

subsection \<open>Text and \<^verbatim>\<open>str.count\<close>\<close>

text \<open>
  Text is a \<open>string\<close>, one \<open>char\<close> per code point; the model covers the code points below
  256. \<^verbatim>\<open>s.count(sub)\<close> scans \<open>s\<close> from the left: where \<open>sub\<close> starts it counts one and
  jumps behind the occurrence, elsewhere it moves one character on. For the empty needle the
  library answers \<^verbatim>\<open>len(s) + 1\<close> without scanning.
\<close>

function str_count_from :: "string \<Rightarrow> string \<Rightarrow> nat" where
  "str_count_from sub s =
     (if sub = [] \<or> length s < length sub then 0
      else if take (length sub) s = sub then Suc (str_count_from sub (drop (length sub) s))
      else str_count_from sub (tl s))"
  by pat_completeness auto
termination
  by (relation "measure (\<lambda>(sub, s). length s)")
     (auto simp flip: length_greater_0_conv)

declare str_count_from.simps [simp del]

definition str_count :: "string \<Rightarrow> string \<Rightarrow> int" where
  "str_count s sub = (if sub = [] then int (length s) + 1 else int (str_count_from sub s))"

text \<open>
  What the count is meant to be: \<open>occurs_disjointly sub s k\<close> says that \<open>s\<close> holds \<open>k\<close>
  occurrences of \<open>sub\<close> no two of which overlap, and the count of non-overlapping
  occurrences is the greatest such \<open>k\<close>.
\<close>

inductive occurs_disjointly :: "string \<Rightarrow> string \<Rightarrow> nat \<Rightarrow> bool" for sub where
  none: "occurs_disjointly sub s 0"
| skip: "occurs_disjointly sub s k \<Longrightarrow> occurs_disjointly sub (c # s) k"
| here: "occurs_disjointly sub s k \<Longrightarrow> occurs_disjointly sub (sub @ s) (Suc k)"

definition occurrence_count :: "string \<Rightarrow> string \<Rightarrow> nat \<Rightarrow> bool" where
  "occurrence_count sub s k \<longleftrightarrow>
     occurs_disjointly sub s k \<and> (\<forall>j. occurs_disjointly sub s j \<longrightarrow> j \<le> k)"

subsection \<open>Dates\<close>

text \<open>
  A naive \<^verbatim>\<open>datetime\<close>: its seven fields. Two of them compare field by field, the year
  first.
\<close>

record datetime =
  year :: int
  month :: int
  day :: int
  hour :: int
  minute :: int
  second :: int
  microsecond :: int

fun lex_less :: "int list \<Rightarrow> int list \<Rightarrow> bool" where
  "lex_less (x # xs) (y # ys) = (x < y \<or> (x = y \<and> lex_less xs ys))"
| "lex_less _ _ = False"

definition dt_fields :: "datetime \<Rightarrow> int list" where
  "dt_fields d = [year d, month d, day d, hour d, minute d, second d, microsecond d]"

definition dt_less :: "datetime \<Rightarrow> datetime \<Rightarrow> bool" where
  "dt_less a b = lex_less (dt_fields a) (dt_fields b)"

subsection \<open>The article record\<close>

record NewInformation =
  title :: string
  date :: datetime
  description :: string
  image_url :: string

definition count_of_phrase_occurrences :: "NewInformation \<Rightarrow> string \<Rightarrow> int" where
  "count_of_phrase_occurrences self phrase =
     str_count (title self) phrase + str_count (description self) phrase"

subsection \<open>The regular expression of \<^verbatim>\<open>has_money\<close>\<close>

text \<open>
  The pattern uses literals, the class \<^verbatim>\<open>\d\<close>, sequence, alternative, \<^verbatim>\<open>?\<close>, \<^verbatim>\<open>*\<close> and
  \<^verbatim>\<open>{1,3}\<close>; it has no back-reference and no look-around, and the program only asks whether
  \<^verbatim>\<open>re.search\<close> finds a match. So the matcher is a decision of membership: \<open>deriv\<close> is
  the expression left after reading one character, \<open>match_here\<close> asks for a match starting at
  the head of the text, \<open>re_search\<close> tries every start. Among the code points below 256 the
  class \<^verbatim>\<open>\d\<close> holds the ten digits \<open>0\<close> to \<open>9\<close>.
\<close>

datatype regex =
  Never | Empty | Chr char | Digit
  | Seq regex regex | Alt regex regex | Star regex

definition is_digit :: "char \<Rightarrow> bool" where
  "is_digit c \<longleftrightarrow> c \<in> set ''0123456789''"

definition Opt :: "regex \<Rightarrow> regex" where
  "Opt r = Alt r Empty"

definition Seqs :: "regex list \<Rightarrow> regex" where
  "Seqs rs = foldr Seq rs Empty"

definition Str :: "string \<Rightarrow> regex" where
  "Str s = Seqs (map Chr s)"

primrec exactly :: "nat \<Rightarrow> regex \<Rightarrow> regex" where
  "exactly 0 r = Empty"
| "exactly (Suc n) r = Seq r (exactly n r)"

primrec at_most :: "nat \<Rightarrow> regex \<Rightarrow> regex" where
  "at_most 0 r = Empty"
| "at_most (Suc n) r = Opt (Seq r (at_most n r))"

definition Rep :: "regex \<Rightarrow> nat \<Rightarrow> nat \<Rightarrow> regex" where
  "Rep r lo hi = Seq (exactly lo r) (at_most (hi - lo) r)"

primrec nullable :: "regex \<Rightarrow> bool" where
  "nullable Never = False"
| "nullable Empty = True"
| "nullable (Chr c) = False"
| "nullable Digit = False"
| "nullable (Seq r s) = (nullable r \<and> nullable s)"
| "nullable (Alt r s) = (nullable r \<or> nullable s)"
| "nullable (Star r) = True"

primrec deriv :: "char \<Rightarrow> regex \<Rightarrow> regex" where
  "deriv a Never = Never"
| "deriv a Empty = Never"
| "deriv a (Chr c) = (if a = c then Empty else Never)"
| "deriv a Digit = (if is_digit a then Empty else Never)"
| "deriv a (Seq r s) =
     (if nullable r then Alt (Seq (deriv a r) s) (deriv a s) else Seq (deriv a r) s)"
| "deriv a (Alt r s) = Alt (deriv a r) (deriv a s)"
| "deriv a (Star r) = Seq (deriv a r) (Star r)"

fun match_here :: "regex \<Rightarrow> string \<Rightarrow> bool" where
  "match_here r [] = nullable r"
| "match_here r (c # cs) = (nullable r \<or> match_here (deriv c r) cs)"

fun re_search :: "regex \<Rightarrow> string \<Rightarrow> bool" where
  "re_search r [] = nullable r"
| "re_search r (c # cs) = (match_here r (c # cs) \<or> re_search r cs)"

text \<open>The words an expression denotes, and a text holding one of them.\<close>

inductive_set star :: "string set \<Rightarrow> string set" for A where
  star_empty: "[] \<in> star A"
| star_step: "u \<in> A \<Longrightarrow> v \<in> star A \<Longrightarrow> u @ v \<in> star A"

primrec lang :: "regex \<Rightarrow> string set" where
  "lang Never = {}"
| "lang Empty = {[]}"
| "lang (Chr c) = {[c]}"
| "lang Digit = {[c] | c. is_digit c}"
| "lang (Seq r s) = {u @ v | u v. u \<in> lang r \<and> v \<in> lang s}"
| "lang (Alt r s) = lang r \<union> lang s"
| "lang (Star r) = star (lang r)"

definition contains_match :: "regex \<Rightarrow> string \<Rightarrow> bool" where
  "contains_match r s \<longleftrightarrow> (\<exists>p u q. s = p @ u @ q \<and> u \<in> lang r)"

text \<open>
  \<^verbatim>\<open>r"\$?(\d{1,3},?\d{1,3}\.?\d*)\d* ?(dollars|USD)?"\<close>, searched in the title and then in the
  description.
\<close>

definition money_pattern :: regex where
  "money_pattern =
     Seqs [Opt (Chr CHR ''$''),
           Seqs [Rep Digit 1 3, Opt (Chr CHR '',''), Rep Digit 1 3, Opt (Chr CHR ''.''),
                 Star Digit],
           Star Digit, Opt (Chr CHR '' ''), Opt (Alt (Str ''dollars'') (Str ''USD''))]"

definition has_money :: "NewInformation \<Rightarrow> bool" where
  "has_money self \<longleftrightarrow>
     re_search money_pattern (title self) \<or> re_search money_pattern (description self)"

text \<open>
  Two readings of the text that the statements about \<open>has_money\<close> use: two digits side by
  side, and two digits side by side or with one comma between them.
\<close>

fun two_consecutive_digits :: "string \<Rightarrow> bool" where
  "two_consecutive_digits (a # b # cs) =
     ((is_digit a \<and> is_digit b) \<or> two_consecutive_digits (b # cs))"
| "two_consecutive_digits _ = False"

fun digit_pair_here :: "string \<Rightarrow> bool" where
  "digit_pair_here (a # b # cs) =
     (is_digit a \<and>
      (is_digit b \<or> (b = CHR '','' \<and> (case cs of [] \<Rightarrow> False | c # _ \<Rightarrow> is_digit c))))"
| "digit_pair_here _ = False"

fun digit_pair :: "string \<Rightarrow> bool" where
  "digit_pair [] = False"
| "digit_pair (c # cs) = (digit_pair_here (c # cs) \<or> digit_pair cs)"

text \<open>
  The currency form as the specification words it: an optional \<^verbatim>\<open>$\<close>, \<open>lo\<close> to three digits,
  then the parts that may be absent (\<open>rest\<close>): grouping, decimals and the unit
  \<^verbatim>\<open>dollars\<close> or \<^verbatim>\<open>USD\<close>. \<open>spec_optional_parts\<close> is one such \<open>rest\<close>: groups of a comma and
  three digits, a decimal point with digits, and the unit after an optional space.
\<close>

definition currency_form :: "nat \<Rightarrow> regex \<Rightarrow> regex" where
  "currency_form lo rest = Seqs [Opt (Chr CHR ''$''), Rep Digit lo 3, rest]"

definition spec_optional_parts :: regex where
  "spec_optional_parts =
     Seqs [Star (Seq (Chr CHR '','') (Rep Digit 3 3)),
           Opt (Seq (Chr CHR ''.'') (Seq Digit (Star Digit))),
           Opt (Seq (Opt (Chr CHR '' '')) (Alt (Str ''dollars'') (Str ''USD'')))]"

subsection \<open>Exceptions\<close>

text \<open>The exceptions the program can meet; a computation that may raise returns a sum.\<close>

datatype py_error =
  AttributeError | TypeError | ValueError | OverflowError | OSError | FileNotFoundError
  | ElementNotFound | ElementClickIntercepted | URLError

subsection \<open>The parameters of a run\<close>

text \<open>
  The payload of the work item is a JSON value. \<^verbatim>\<open>d.get(k)\<close> is the method of a
  dictionary: it answers \<^verbatim>\<open>None\<close> for a missing key, and a value that is no dictionary
  has no such method. The items of a dictionary are kept as a list of pairs with distinct
  keys.
\<close>

datatype json =
  JNull | JBool bool | JInt int | JStr string | JList "json list"
  | JObj "(string \<times> json) list"

fun dict_get :: "json \<Rightarrow> string \<Rightarrow> py_error + json" where
  "dict_get (JObj kvs) k = Inr (case map_of kvs k of None \<Rightarrow> JNull | Some v \<Rightarrow> v)"
| "dict_get _ k = Inl AttributeError"

text \<open>\<^verbatim>\<open>d.get(k) if d.get(k) is not None else dflt\<close>\<close>

definition get_or :: "json \<Rightarrow> string \<Rightarrow> json \<Rightarrow> py_error + json" where
  "get_or d k dflt =
     (case dict_get d k of
        Inl e \<Rightarrow> Inl e
      | Inr v \<Rightarrow> Inr (if v \<noteq> JNull then v else dflt))"

record NewsParameters =
  items :: json
  np_phrase :: json
  np_months :: json
  np_topic :: json

definition NewsParameters_init :: "json \<Rightarrow> py_error + NewsParameters" where
  "NewsParameters_init payload =
     (case dict_get payload ''search'' of
        Inl e \<Rightarrow> Inl e
      | Inr search_parameters \<Rightarrow>
          if search_parameters \<noteq> JNull then
            (case get_or search_parameters ''phrase'' (JStr []) of
               Inl e \<Rightarrow> Inl e
             | Inr p \<Rightarrow>
                 (case get_or search_parameters ''months'' (JInt 0) of
                    Inl e \<Rightarrow> Inl e
                  | Inr m \<Rightarrow>
                      (case get_or search_parameters ''topic'' (JStr []) of
                         Inl e \<Rightarrow> Inl e
                       | Inr t \<Rightarrow>
                           Inr \<lparr>items = payload, np_phrase = p, np_months = m,
                                np_topic = t\<rparr>)))
          else
            Inr \<lparr>items = payload, np_phrase = JStr [], np_months = JInt 0,
                 np_topic = JStr []\<rparr>)"

definition get_phrase :: "NewsParameters \<Rightarrow> json" where
  "get_phrase self = np_phrase self"

definition get_months :: "NewsParameters \<Rightarrow> json" where
  "get_months self = np_months self"

definition get_topic :: "NewsParameters \<Rightarrow> json" where
  "get_topic self = np_topic self"

text \<open>
  What the payload configures: the entry of a key in the \<^verbatim>\<open>search\<close> mapping, when there is
  such a mapping and it has the key; and the value an entry stands for, an absent entry and
  \<^verbatim>\<open>null\<close> standing for the default.
\<close>

definition search_entry :: "(string \<times> json) list \<Rightarrow> string \<Rightarrow> json option" where
  "search_entry kvs k =
     (case map_of kvs ''search'' of
        Some (JObj sp) \<Rightarrow> map_of sp k
      | _ \<Rightarrow> None)"

fun value_or :: "json \<Rightarrow> json option \<Rightarrow> json" where
  "value_or dflt None = dflt"
| "value_or dflt (Some JNull) = dflt"
| "value_or dflt (Some v) = v"

subsection \<open>The cutoff date\<close>

text \<open>
  \<^verbatim>\<open>relativedelta(months=k)\<close> of \<^verbatim>\<open>dateutil\<close>: of its fields only the years and months are
  set here. The constructor carries months beyond eleven over into years; subtracting a
  delta from a date adds its negation; adding moves the month, carries into the year, clips
  the day to the length of the month and builds the date with \<^verbatim>\<open>replace\<close>, which refuses a
  year outside 1 to 9999.
\<close>

record relativedelta =
  delta_years :: int
  delta_months :: int

definition sign :: "int \<Rightarrow> int" where
  "sign x = (if x < 0 then - 1 else 1)"

definition fix_delta :: "relativedelta \<Rightarrow> relativedelta" where
  "fix_delta self =
     (if abs (delta_months self) > 11 then
        let s = sign (delta_months self);
            d = (delta_months self * s) div 12;
            m = (delta_months self * s) mod 12
        in self\<lparr>delta_months := m * s, delta_years := delta_years self + d * s\<rparr>
      else self)"

definition relativedelta_init :: "int \<Rightarrow> int \<Rightarrow> relativedelta" where
  "relativedelta_init ys ms = fix_delta \<lparr>delta_years = ys, delta_months = ms\<rparr>"

definition neg_delta :: "relativedelta \<Rightarrow> relativedelta" where
  "neg_delta self = relativedelta_init (- delta_years self) (- delta_months self)"

definition isleap :: "int \<Rightarrow> bool" where
  "isleap y \<longleftrightarrow> y mod 4 = 0 \<and> (y mod 100 \<noteq> 0 \<or> y mod 400 = 0)"

definition mdays :: "int \<Rightarrow> int" where
  "mdays m =
     (if 1 \<le> m \<and> m \<le> 12 then [0, 31, 28, 31, 30, 31, 30, 31, 31, 30, 31, 30, 31] ! nat m
      else 0)"

definition month_length :: "int \<Rightarrow> int \<Rightarrow> int" where
  "month_length y m = mdays m + (if m = 2 \<and> isleap y then 1 else 0)"

text \<open>
  \<^verbatim>\<open>dt.replace(year=y, month=m, day=d)\<close>: the time of day is kept. The arguments are
  converted to machine integers of 32 bits first, and one that does not fit is an
  \<^verbatim>\<open>OverflowError\<close>; a date that does not exist is a \<^verbatim>\<open>ValueError\<close>.
\<close>

definition fits_c_int :: "int \<Rightarrow> bool" where
  "fits_c_int x \<longleftrightarrow> - 2147483648 \<le> x \<and> x \<le> 2147483647"

definition replace_date :: "datetime \<Rightarrow> int \<Rightarrow> int \<Rightarrow> int \<Rightarrow> py_error + datetime" where
  "replace_date dt y m d =
     (if \<not> fits_c_int y \<or> \<not> fits_c_int m \<or> \<not> fits_c_int d then Inl OverflowError
      else if y < 1 \<or> 9999 < y \<or> m < 1 \<or> 12 < m \<or> d < 1 \<or> month_length y m < d
      then Inl ValueError
      else Inr (dt\<lparr>year := y, month := m, day := d\<rparr>))"

definition add_delta :: "relativedelta \<Rightarrow> datetime \<Rightarrow> py_error + datetime" where
  "add_delta self dt =
     (let y = year dt + delta_years self;
          m = month dt;
          (y, m) =
            (if delta_months self \<noteq> 0 then
               (let m = m + delta_months self in
                if m > 12 then (y + 1, m - 12)
                else if m < 1 then (y - 1, m + 12)
                else (y, m))
             else (y, m));
          d = min (month_length y m) (day dt)
      in replace_date dt y m d)"

definition sub_delta :: "datetime \<Rightarrow> relativedelta \<Rightarrow> py_error + datetime" where
  "sub_delta dt delta = add_delta (neg_delta delta) dt"

text \<open>
  \<^verbatim>\<open>(datetime.now() - relativedelta(months=months - 1 if months else 0)).replace(day=1)\<close>,
  \<open>now\<close> being the reading of the clock.
\<close>

definition max_date_to_search :: "datetime \<Rightarrow> int \<Rightarrow> py_error + datetime" where
  "max_date_to_search now months =
     (case sub_delta now (relativedelta_init 0 (if months \<noteq> 0 then months - 1 else 0)) of
        Inl e \<Rightarrow> Inl e
      | Inr d \<Rightarrow> replace_date d (year d) (month d) 1)"

text \<open>
  The dates that exist, the months counted from year zero, and the first day of the month
  \<open>k\<close> months before that of \<open>now\<close>, at the time of day of \<open>now\<close>.
\<close>

definition valid_datetime :: "datetime \<Rightarrow> bool" where
  "valid_datetime d \<longleftrightarrow>
     1 \<le> year d \<and> year d \<le> 9999 \<and> 1 \<le> month d \<and> month d \<le> 12
     \<and> 1 \<le> day d \<and> day d \<le> month_length (year d) (month d)
     \<and> 0 \<le> hour d \<and> hour d < 24 \<and> 0 \<le> minute d \<and> minute d < 60
     \<and> 0 \<le> second d \<and> second d < 60 \<and> 0 \<le> microsecond d \<and> microsecond d < 1000000"

definition month_index :: "datetime \<Rightarrow> int" where
  "month_index d = year d * 12 + (month d - 1)"

definition first_of_month :: "datetime \<Rightarrow> int \<Rightarrow> datetime" where
  "first_of_month now k =
     now\<lparr>year := (month_index now - k) div 12, month := (month_index now - k) mod 12 + 1,
         day := 1\<rparr>"


subsection \<open>The browser, the clock and the library functions\<close>

text \<open>
  The site answers a search with a list of result pages; the browser shows one of them.
  An \<open>item\<close> is one entry of the result list as the locators of \<^verbatim>\<open>get_news\<close> read it: the
  attribute \<^verbatim>\<open>data-timestamp\<close> of its time stamp and the attribute \<^verbatim>\<open>src\<close> of its picture
  (\<open>None\<close> when the element lacks the attribute, which the browser answers with
  \<^verbatim>\<open>None\<close>), and the texts of its title and of its description. The link to the next
  page is on every page but the last.
\<close>

record item =
  data_timestamp :: "string option"
  img_src :: "string option"
  item_title :: string
  item_description :: string

record world =
  pages :: "item list list"
  current :: nat
  ticks :: nat
  clicks :: nat
  sleeps :: nat
  log :: "string list"
  files :: "string list"

text \<open>
  What the program cannot decide is given from outside: the readings of the clock, one for
  each call of \<^verbatim>\<open>datetime.now()\<close>; \<^verbatim>\<open>int(s)\<close> on a text, \<open>None\<close> being its
  \<^verbatim>\<open>ValueError\<close>; \<^verbatim>\<open>datetime.fromtimestamp(n / 1000.0)\<close>, which depends on the time zone
  of the machine and raises \<^verbatim>\<open>ValueError\<close> or \<^verbatim>\<open>OverflowError\<close> out of its range; whether
  an overlay intercepts a click, for each click attempted; and how the download of a picture
  to a file ends, given the address and the name of the file under \<^verbatim>\<open>news/\<close>.
\<close>

record env =
  clock :: "nat \<Rightarrow> datetime"
  int_of_str :: "string \<Rightarrow> int option"
  fromtimestamp :: "int \<Rightarrow> py_error + datetime"
  intercepted :: "nat \<Rightarrow> bool"
  urlretrieve :: "string \<Rightarrow> string \<Rightarrow> py_error option"

definition find_elements :: "world \<Rightarrow> item list" where
  "find_elements w = (if current w < length (pages w) then pages w ! current w else [])"

definition is_element_visible_next :: "world \<Rightarrow> bool" where
  "is_element_visible_next w \<longleftrightarrow> Suc (current w) < length (pages w)"

text \<open>The entry \<^verbatim>\<open>locator[result_index]\<close> of the page on display.\<close>

definition result_item :: "world \<Rightarrow> nat \<Rightarrow> py_error + item" where
  "result_item w result_index =
     (if 1 \<le> result_index \<and> result_index \<le> length (find_elements w)
      then Inr (find_elements w ! (result_index - 1))
      else Inl ElementNotFound)"

definition click_link :: "env \<Rightarrow> world \<Rightarrow> (py_error + unit) \<times> world" where
  "click_link e w =
     (if \<not> is_element_visible_next w then (Inl ElementNotFound, w)
      else if intercepted e (clicks w)
        then (Inl ElementClickIntercepted, w\<lparr>clicks := Suc (clicks w)\<rparr>)
      else (Inr (), w\<lparr>current := Suc (current w), clicks := Suc (clicks w)\<rparr>))"

subsection \<open>Formatting\<close>

function str_of_nat :: "nat \<Rightarrow> string" where
  "str_of_nat n =
     (if n < 10 then [''0123456789'' ! n]
      else str_of_nat (n div 10) @ [''0123456789'' ! (n mod 10)])"
  by pat_completeness auto
termination
  by (relation "measure id") auto

declare str_of_nat.simps [simp del]

text \<open>\<^verbatim>\<open>f'{page}-{timestamp}-{result_index}.png'\<close>\<close>

definition filename_of :: "nat \<Rightarrow> string option \<Rightarrow> nat \<Rightarrow> string" where
  "filename_of page timestamp result_index =
     str_of_nat page @ ''-'' @ (case timestamp of None \<Rightarrow> ''None'' | Some ts \<Rightarrow> ts) @ ''-''
       @ str_of_nat result_index @ ''.png''"

text \<open>\<^verbatim>\<open>f'Could not convert to date: index({result_index})'\<close>\<close>

definition could_not_convert :: "nat \<Rightarrow> string" where
  "could_not_convert result_index =
     ''Could not convert to date: index('' @ str_of_nat result_index @ '')''"

subsection \<open>\<^verbatim>\<open>get_news\<close>\<close>

text \<open>
  The date of an entry: the clock is read, then the time stamp is converted; a
  \<^verbatim>\<open>ValueError\<close> of the conversion is logged and leaves the reading of the clock as the
  date, any other exception leaves the method. \<^verbatim>\<open>int(None)\<close> is a \<^verbatim>\<open>TypeError\<close>.
\<close>

definition resolve_date ::
  "env \<Rightarrow> nat \<Rightarrow> string option \<Rightarrow> world \<Rightarrow> (py_error + datetime) \<times> world" where
  "resolve_date e result_index timestamp w =
     (let date_time = clock e (ticks w);
          w = w\<lparr>ticks := Suc (ticks w)\<rparr>;
          logged = w\<lparr>log := log w @ [could_not_convert result_index]\<rparr>
      in case timestamp of
           None \<Rightarrow> (Inl TypeError, w)
         | Some ts \<Rightarrow>
             (case int_of_str e ts of
                None \<Rightarrow> (Inr date_time, logged)
              | Some n \<Rightarrow>
                  (case fromtimestamp e n of
                     Inr d \<Rightarrow> (Inr d, w)
                   | Inl ValueError \<Rightarrow> (Inr date_time, logged)
                   | Inl err \<Rightarrow> (Inl err, w))))"

text \<open>\<^verbatim>\<open>urllib.request.urlretrieve(image_url, .../news/filename)\<close>\<close>

definition download :: "env \<Rightarrow> string option \<Rightarrow> string \<Rightarrow> world \<Rightarrow> (py_error + unit) \<times> world" where
  "download e url filename w =
     (case url of
        None \<Rightarrow> (Inl TypeError, w)
      | Some u \<Rightarrow>
          (case urlretrieve e u filename of
             Some err \<Rightarrow> (Inl err, w)
           | None \<Rightarrow> (Inr (), w\<lparr>files := files w @ [filename]\<rparr>)))"

text \<open>
  The body of the inner loop ends in one of three ways: the next entry is due, the method
  returns the list, or an exception leaves the method.
\<close>

datatype flow = Next "NewInformation list" | Return "NewInformation list" | Raise py_error

definition item_step ::
  "env \<Rightarrow> datetime \<Rightarrow> nat \<Rightarrow> nat \<Rightarrow> NewInformation list \<Rightarrow> world \<Rightarrow> flow \<times> world" where
  "item_step e cutoff page result_index news w =
     (case result_item w result_index of
        Inl err \<Rightarrow> (Raise err, w)
      | Inr it \<Rightarrow>
          (case resolve_date e result_index (data_timestamp it) w of
             (Inl err, w) \<Rightarrow> (Raise err, w)
           | (Inr date_time, w) \<Rightarrow>
               if dt_less date_time cutoff then (Return news, w)
               else
                 (let filename = filename_of page (data_timestamp it) result_index
                  in case download e (img_src it) filename w of
                       (Inl err, w) \<Rightarrow> (Raise err, w)
                     | (Inr _, w) \<Rightarrow>
                         (Next (news @ [\<lparr>title = item_title it, date = date_time,
                                         description = item_description it,
                                         image_url = filename\<rparr>]), w))))"

text \<open>\<^verbatim>\<open>for result_index, element in enumerate(search_results, 1)\<close>\<close>

fun items_loop ::
  "env \<Rightarrow> datetime \<Rightarrow> nat \<Rightarrow> (nat \<times> item) list \<Rightarrow> NewInformation list \<Rightarrow> world
     \<Rightarrow> flow \<times> world" where
  "items_loop e cutoff page [] news w = (Next news, w)"
| "items_loop e cutoff page ((result_index, element) # rest) news w =
     (case item_step e cutoff page result_index news w of
        (Next news, w) \<Rightarrow> items_loop e cutoff page rest news w
      | stop \<Rightarrow> stop)"

text \<open>
  \<^verbatim>\<open>for _ in range(attempts)\<close>: click, and sleep when the click is intercepted. Nothing ends
  the loop after a click that went through.
\<close>

fun click_attempts :: "env \<Rightarrow> nat \<Rightarrow> world \<Rightarrow> (py_error + unit) \<times> world" where
  "click_attempts e 0 w = (Inr (), w)"
| "click_attempts e (Suc n) w =
     (case click_link e w of
        (Inr _, w) \<Rightarrow> click_attempts e n w
      | (Inl ElementClickIntercepted, w) \<Rightarrow> click_attempts e n (w\<lparr>sleeps := Suc (sleeps w)\<rparr>)
      | (Inl err, w) \<Rightarrow> (Inl err, w))"

text \<open>
  The outer loop. It runs as long as the link to the next page is visible and may run for
  ever, when every click is intercepted; \<open>fuel\<close> bounds the number of its rounds, and
  \<open>None\<close> says that the bound was reached.
\<close>

fun news_loop ::
  "nat \<Rightarrow> env \<Rightarrow> datetime \<Rightarrow> (nat \<times> item) list \<Rightarrow> nat \<Rightarrow> NewInformation list \<Rightarrow> world
     \<Rightarrow> ((py_error + NewInformation list) \<times> world) option" where
  "news_loop 0 e cutoff search_results page news w = None"
| "news_loop (Suc fuel) e cutoff search_results page news w =
     (if is_element_visible_next w then
        (case items_loop e cutoff page search_results news w of
           (Raise err, w) \<Rightarrow> Some (Inl err, w)
         | (Return news, w) \<Rightarrow> Some (Inr news, w)
         | (Next news, w) \<Rightarrow>
             (case click_attempts e 3 w of
                (Inl err, w) \<Rightarrow> Some (Inl err, w)
              | (Inr _, w) \<Rightarrow>
                  news_loop fuel e cutoff search_results (Suc page) news w))
      else Some (Inr news, w))"

definition get_news ::
  "nat \<Rightarrow> env \<Rightarrow> int \<Rightarrow> world \<Rightarrow> ((py_error + NewInformation list) \<times> world) option" where
  "get_news fuel e months w =
     (let search_results = find_elements w;
          now = clock e (ticks w);
          w = w\<lparr>ticks := Suc (ticks w)\<rparr>
      in case max_date_to_search now months of
           Inl err \<Rightarrow> Some (Inl err, w)
         | Inr max_date \<Rightarrow> news_loop fuel e max_date (enumerate 1 search_results) 0 [] w)"

subsection \<open>A machine in UTC and a site to run on\<close>

text \<open>
  For the runs on concrete inputs: the conversion of a time stamp by a machine whose time
  zone is UTC (the civil date of a day number, then the time of day). A number of seconds
  beyond the 64 bits of the machine's time is an \<^verbatim>\<open>OverflowError\<close>, a year beyond the 32 bits
  of the broken-down time an \<^verbatim>\<open>OSError\<close>, any other year outside 1 to 9999 a
  \<^verbatim>\<open>ValueError\<close>. \<^verbatim>\<open>int\<close> is taken on a text of decimal digits, any other text being
  refused. A download succeeds unless the name of the file holds a slash: the name then
  points into a directory that does not exist, and opening the file is a
  \<^verbatim>\<open>FileNotFoundError\<close>. The browser starts at the first page of a site, with nothing logged
  or written yet.
\<close>

definition civil_from_days :: "int \<Rightarrow> int \<times> int \<times> int" where
  "civil_from_days z0 =
     (let z = z0 + 719468;
          era = z div 146097;
          doe = z mod 146097;
          yoe = (doe - doe div 1460 + doe div 36524 - doe div 146096) div 365;
          doy = doe - (365 * yoe + yoe div 4 - yoe div 100);
          mp = (5 * doy + 2) div 153;
          d = doy - (153 * mp + 2) div 5 + 1;
          m = (if mp < 10 then mp + 3 else mp - 9);
          y = yoe + era * 400 + (if m \<le> 2 then 1 else 0)
      in (y, m, d))"

definition utc_fromtimestamp :: "int \<Rightarrow> py_error + datetime" where
  "utc_fromtimestamp n =
     (let (y, m, d) = civil_from_days (n div 86400000);
          r = n mod 86400000
      in if n div 1000 < - 9223372036854775808 \<or> 9223372036854775807 < n div 1000
           then Inl OverflowError
         else if \<not> fits_c_int (y - 1900) then Inl OSError
         else if y < 1 \<or> 9999 < y then Inl ValueError
         else Inr \<lparr>year = y, month = m, day = d, hour = r div 3600000,
                   minute = r mod 3600000 div 60000, second = r mod 60000 div 1000,
                   microsecond = r mod 1000 * 1000\<rparr>)"

fun decimal_value :: "int \<Rightarrow> string \<Rightarrow> int option" where
  "decimal_value acc [] = Some acc"
| "decimal_value acc (c # cs) =
     (if is_digit c then decimal_value (acc * 10 + (of_char c - 48)) cs else None)"

definition int_of_decimal :: "string \<Rightarrow> int option" where
  "int_of_decimal s = (if s = [] then None else decimal_value 0 s)"

definition utc_env :: "(nat \<Rightarrow> datetime) \<Rightarrow> (nat \<Rightarrow> bool) \<Rightarrow> env" where
  "utc_env clk overlay =
     \<lparr>clock = clk, int_of_str = int_of_decimal, fromtimestamp = utc_fromtimestamp,
      intercepted = overlay,
      urlretrieve = (\<lambda>u f. if CHR ''/'' \<in> set f then Some FileNotFoundError else None)\<rparr>"

definition start_world :: "item list list \<Rightarrow> world" where
  "start_world ps =
     \<lparr>pages = ps, current = 0, ticks = 0, clicks = 0, sleeps = 0, log = [], files = []\<rparr>"

definition entry :: "string \<Rightarrow> string \<Rightarrow> item" where
  "entry ts t =
     \<lparr>data_timestamp = Some ts, img_src = Some (''https://example.org/'' @ t @ ''.jpg''),
      item_title = t, item_description = ''about '' @ t\<rparr>"

definition midnight_2024_05_15 :: datetime where
  "midnight_2024_05_15 =
     \<lparr>year = 2024, month = 5, day = 15, hour = 0, minute = 0, second = 0, microsecond = 0\<rparr>"

text \<open>What a run ended with: the titles collected, or the exception, and the page on display.\<close>

definition outcome ::
  "((py_error + NewInformation list) \<times> world) option \<Rightarrow> ((py_error + string list) \<times> nat) option"
  where
  "outcome r = map_option (\<lambda>(res, w). (map_sum id (map title) res, current w)) r"

section \<open>Properties\<close>

subsection \<open>Counting a phrase\<close>

lemma str_count_from_short: "length s < length sub \<Longrightarrow> str_count_from sub s = 0"
  by (subst str_count_from.simps) simp

lemma str_count_from_here:
  "sub \<noteq> [] \<Longrightarrow> str_count_from sub (sub @ s) = Suc (str_count_from sub s)"
  by (subst str_count_from.simps) simp

lemma str_count_from_skip:
  "take (length sub) (c # s) \<noteq> sub \<Longrightarrow> str_count_from sub (c # s) = str_count_from sub s"
  by (subst str_count_from.simps) (auto simp: str_count_from_short)

text \<open>The scan finds as many occurrences as it counts.\<close>

lemma str_count_from_reached:
  "sub \<noteq> [] \<Longrightarrow> occurs_disjointly sub s (str_count_from sub s)"
proof (induction sub s rule: str_count_from.induct)
  case (1 sub s)
  show ?case
  proof (cases "length s < length sub")
    case True
    then show ?thesis by (simp add: str_count_from_short none)
  next
    case long: False
    show ?thesis
    proof (cases "take (length sub) s = sub")
      case True
      then have s: "s = sub @ drop (length sub) s"
        by (metis append_take_drop_id)
      have "occurs_disjointly sub (drop (length sub) s) (str_count_from sub (drop (length sub) s))"
        using 1 long True by simp
      then have "occurs_disjointly sub (sub @ drop (length sub) s)
                   (Suc (str_count_from sub (drop (length sub) s)))"
        by (rule here)
      then show ?thesis
        using s str_count_from_here [OF \<open>sub \<noteq> []\<close>, of "drop (length sub) s"] by simp
    next
      case False
      from long 1(3) obtain c t where s: "s = c # t" by (cases s) auto
      have "occurs_disjointly sub t (str_count_from sub t)"
        using 1 long False s by simp
      then have "occurs_disjointly sub (c # t) (str_count_from sub t)"
        by (rule skip)
      then show ?thesis
        using s False str_count_from_skip [of sub c t] by simp
    qed
  qed
qed

text \<open>
  Dropping a prefix never raises the count, and dropping at most \<open>length sub\<close> characters
  lowers it by at most one. Both are proved together, by induction on the length of the text.
\<close>

lemma str_count_from_bounds:
  "sub \<noteq> [] \<Longrightarrow>
     (\<forall>m \<le> length sub. str_count_from sub s \<le> Suc (str_count_from sub (drop m s)))
     \<and> (\<forall>j. str_count_from sub (drop j s) \<le> str_count_from sub s)"
proof (induction "length s" arbitrary: s rule: less_induct)
  case less
  note sub = \<open>sub \<noteq> []\<close>
  let ?n = "length sub"
  have mono_smaller: "str_count_from sub (drop j t) \<le> str_count_from sub t"
    if "length t < length s" for j t
    using less(1) [OF that sub] by blast
  have step_smaller: "str_count_from sub t \<le> Suc (str_count_from sub (drop m t))"
    if "length t < length s" "m \<le> ?n" for m t
    using less(1) [OF that(1) sub] that(2) by blast
  have B1: "str_count_from sub (tl s) \<le> str_count_from sub s"
  proof (cases s)
    case Nil
    then show ?thesis by simp
  next
    case (Cons c t)
    show ?thesis
    proof (cases "take ?n (c # t) = sub")
      case True
      then have "c # t = sub @ drop ?n (c # t)"
        by (metis append_take_drop_id)
      then have "str_count_from sub (c # t) = Suc (str_count_from sub (drop ?n (c # t)))"
        using str_count_from_here [OF sub] by metis
      moreover have "drop ?n (c # t) = drop (?n - 1) t"
        using sub by (cases ?n) auto
      moreover have "str_count_from sub t \<le> Suc (str_count_from sub (drop (?n - 1) t))"
        using step_smaller [of t "?n - 1"] Cons by simp
      ultimately show ?thesis using Cons by simp
    next
      case False
      then show ?thesis using Cons by (simp add: str_count_from_skip)
    qed
  qed
  have B: "str_count_from sub (drop j s) \<le> str_count_from sub s" for j
  proof (cases j)
    case 0
    then show ?thesis by simp
  next
    case (Suc i)
    show ?thesis
    proof (cases s)
      case Nil
      then show ?thesis by simp
    next
      case (Cons c t)
      have "str_count_from sub (drop i t) \<le> str_count_from sub t"
        using mono_smaller [of t i] Cons by simp
      then show ?thesis using B1 Cons Suc by simp
    qed
  qed
  have A: "str_count_from sub s \<le> Suc (str_count_from sub (drop m s))" if m: "m \<le> ?n" for m
  proof (cases m)
    case 0
    then show ?thesis by simp
  next
    case (Suc i)
    show ?thesis
    proof (cases s)
      case Nil
      then show ?thesis using sub by (simp add: str_count_from_short)
    next
      case (Cons c t)
      show ?thesis
      proof (cases "take ?n (c # t) = sub")
        case True
        then have "c # t = sub @ drop ?n (c # t)"
          by (metis append_take_drop_id)
        then have eq: "str_count_from sub (c # t) = Suc (str_count_from sub (drop ?n (c # t)))"
          using str_count_from_here [OF sub] by metis
        have "drop ?n (c # t) = drop (?n - m) (drop i t)"
          using m Suc by (cases ?n) (auto simp: Suc_diff_le)
        moreover have "str_count_from sub (drop (?n - m) (drop i t)) \<le> str_count_from sub (drop i t)"
          using mono_smaller [of "drop i t" "?n - m"] Cons by simp
        ultimately show ?thesis using eq Cons Suc by simp
      next
        case False
        have "str_count_from sub t \<le> Suc (str_count_from sub (drop i t))"
          using step_smaller [of t i] Cons m Suc by simp
        then show ?thesis using False Cons Suc by (simp add: str_count_from_skip)
      qed
    qed
  qed
  show ?case using A B by blast
qed

text \<open>No choice of non-overlapping occurrences is larger than what the scan counts.\<close>

lemma str_count_from_greatest:
  "occurs_disjointly sub s k \<Longrightarrow> sub \<noteq> [] \<Longrightarrow> k \<le> str_count_from sub s"
proof (induction rule: occurs_disjointly.induct)
  case (none s)
  then show ?case by simp
next
  case (skip s k c)
  have "str_count_from sub (drop 1 (c # s)) \<le> str_count_from sub (c # s)"
    using str_count_from_bounds [OF skip.prems, of "c # s"] by blast
  then show ?case using skip by simp
next
  case (here s k)
  then show ?case by (simp add: str_count_from_here)
qed

lemma str_count_is_occurrence_count:
  "sub \<noteq> [] \<Longrightarrow> occurrence_count sub s (str_count_from sub s)"
  unfolding occurrence_count_def
  using str_count_from_reached str_count_from_greatest by blast

lemma occurrence_count_unique:
  "occurrence_count sub s j \<Longrightarrow> occurrence_count sub s k \<Longrightarrow> j = k"
  unfolding occurrence_count_def by (meson le_antisym)

text \<open>
  C7. For every title, description and non-empty phrase, \<open>count_of_phrase_occurrences\<close> is
  the count of non-overlapping occurrences of the phrase in the title plus the count in the
  description, the count in a text being the greatest number of pairwise non-overlapping
  occurrences in it: both counts exist, any two such counts add up to the result, and
  the result is never negative.
\<close>

theorem count_of_phrase_occurrences_additive:
  assumes "phrase \<noteq> []"
  shows "(\<exists>kt kd. occurrence_count phrase (title a) kt
            \<and> occurrence_count phrase (description a) kd)
         \<and> (\<forall>kt kd. occurrence_count phrase (title a) kt
               \<and> occurrence_count phrase (description a) kd
             \<longrightarrow> count_of_phrase_occurrences a phrase = int kt + int kd)
         \<and> 0 \<le> count_of_phrase_occurrences a phrase"
proof (intro conjI allI impI)
  show "\<exists>kt kd. occurrence_count phrase (title a) kt
          \<and> occurrence_count phrase (description a) kd"
    using str_count_is_occurrence_count [OF assms] by blast
next
  fix kt kd
  assume k: "occurrence_count phrase (title a) kt
               \<and> occurrence_count phrase (description a) kd"
  have "kt = str_count_from phrase (title a)"
    using assms k str_count_is_occurrence_count occurrence_count_unique by blast
  moreover have "kd = str_count_from phrase (description a)"
    using assms k str_count_is_occurrence_count occurrence_count_unique by blast
  ultimately show "count_of_phrase_occurrences a phrase = int kt + int kd"
    using assms by (simp add: count_of_phrase_occurrences_def str_count_def)
next
  show "0 \<le> count_of_phrase_occurrences a phrase"
    by (simp add: count_of_phrase_occurrences_def str_count_def)
qed

text \<open>
  The theorem at the title \<open>abcabcab\<close> and the description \<open>xabc\<close> with the phrase \<open>abc\<close>:
  two occurrences and one, three in all.
\<close>

theorem count_of_phrase_occurrences_additive_witness:
  "''abc'' \<noteq> []
   \<and> occurrence_count ''abc'' ''abcabcab'' 2
   \<and> occurrence_count ''abc'' ''xabc'' 1
   \<and> count_of_phrase_occurrences
       \<lparr>title = ''abcabcab'',
        date = \<lparr>year = 2024, month = 4, day = 10, hour = 0, minute = 0, second = 0,
                microsecond = 0\<rparr>,
        description = ''xabc'', image_url = ''0-1712707200000-1.png''\<rparr> ''abc'' = 3"
proof -
  let ?a = "\<lparr>title = ''abcabcab'',
        date = \<lparr>year = 2024, month = 4, day = 10, hour = 0, minute = 0, second = 0,
                microsecond = 0\<rparr>,
        description = ''xabc'', image_url = ''0-1712707200000-1.png''\<rparr>"
  have ne: "''abc'' \<noteq> []" by simp
  have "str_count_from ''abc'' ''abcabcab'' = 2" by code_simp
  then have t: "occurrence_count ''abc'' (title ?a) 2"
    using str_count_is_occurrence_count [OF ne, of "''abcabcab''"] by simp
  have "str_count_from ''abc'' ''xabc'' = 1" by code_simp
  then have d: "occurrence_count ''abc'' (description ?a) 1"
    using str_count_is_occurrence_count [OF ne, of "''xabc''"] by simp
  from count_of_phrase_occurrences_additive [OF ne, of ?a] t d
  have "count_of_phrase_occurrences ?a ''abc'' = int 2 + int 1" by blast
  with t d show ?thesis by simp
qed

text \<open>
  C10. With the empty phrase, \<open>count_of_phrase_occurrences\<close> is the length of the title plus
  the length of the description plus two: the count of the empty needle in a text is its
  length plus one.
\<close>

theorem count_of_phrase_occurrences_empty:
  "count_of_phrase_occurrences a [] = int (length (title a)) + int (length (description a)) + 2"
  by (simp add: count_of_phrase_occurrences_def str_count_def)

subsection \<open>The matcher decides membership\<close>

lemma nullable_lang: "nullable r \<longleftrightarrow> [] \<in> lang r"
  by (induction r) (auto intro: star_empty)

lemma star_cons_split:
  assumes "w \<in> star A" "w = a # x"
  shows "\<exists>u v. x = u @ v \<and> a # u \<in> A \<and> v \<in> star A"
  using assms
proof (induction arbitrary: x rule: star.induct)
  case star_empty
  then show ?case by simp
next
  case (star_step u v)
  show ?case
  proof (cases u)
    case Nil
    then show ?thesis using star_step by simp
  next
    case (Cons b u')
    then have "x = u' @ v" "a # u' \<in> A"
      using star_step.prems star_step.hyps(1) by auto
    then show ?thesis using star_step.hyps(2) by blast
  qed
qed

lemma cons_in_seq:
  "a # w \<in> {u @ v | u v. u \<in> A \<and> v \<in> B} \<longleftrightarrow>
     (\<exists>u v. w = u @ v \<and> a # u \<in> A \<and> v \<in> B) \<or> ([] \<in> A \<and> a # w \<in> B)"
  by (auto simp: Cons_eq_append_conv)

lemma cons_in_star:
  "a # w \<in> star A \<longleftrightarrow> (\<exists>u v. w = u @ v \<and> a # u \<in> A \<and> v \<in> star A)"
proof
  assume "a # w \<in> star A"
  from star_cons_split [OF this refl] show "\<exists>u v. w = u @ v \<and> a # u \<in> A \<and> v \<in> star A" .
next
  assume "\<exists>u v. w = u @ v \<and> a # u \<in> A \<and> v \<in> star A"
  then obtain u v where uv: "w = u @ v" "a # u \<in> A" "v \<in> star A" by blast
  have "(a # u) @ v \<in> star A" using uv(2,3) by (rule star_step)
  then show "a # w \<in> star A" using uv(1) by simp
qed

lemma lang_deriv: "w \<in> lang (deriv a r) \<longleftrightarrow> a # w \<in> lang r"
proof (induction r arbitrary: w)
  case (Seq r s)
  have "a # w \<in> lang (Seq r s) \<longleftrightarrow>
          (\<exists>u v. w = u @ v \<and> a # u \<in> lang r \<and> v \<in> lang s) \<or> ([] \<in> lang r \<and> a # w \<in> lang s)"
    using cons_in_seq [of a w "lang r" "lang s"] by simp
  then show ?case using Seq by (auto simp: nullable_lang)
next
  case (Star r)
  then show ?case by (simp add: cons_in_star)
qed (simp_all add: is_digit_def)

lemma match_here_lang: "match_here r s \<longleftrightarrow> (\<exists>u q. s = u @ q \<and> u \<in> lang r)"
proof (induction s arbitrary: r)
  case Nil
  then show ?case by (simp add: nullable_lang)
next
  case (Cons c cs)
  show ?case
  proof
    assume "match_here r (c # cs)"
    then consider "[] \<in> lang r" | u q where "cs = u @ q" "c # u \<in> lang r"
      using Cons by (auto simp: nullable_lang lang_deriv)
    then show "\<exists>u q. c # cs = u @ q \<and> u \<in> lang r"
    proof cases
      case 1
      then show ?thesis by (metis append_Nil)
    next
      case 2
      then show ?thesis by (metis append_Cons)
    qed
  next
    assume "\<exists>u q. c # cs = u @ q \<and> u \<in> lang r"
    then obtain u q where uq: "c # cs = u @ q" "u \<in> lang r" by blast
    show "match_here r (c # cs)"
    proof (cases u)
      case Nil
      then have "nullable r" using uq(2) by (simp add: nullable_lang)
      then show ?thesis by simp
    next
      case (Cons b u')
      then have "cs = u' @ q" "c # u' \<in> lang r" using uq by auto
      then show ?thesis using Cons.IH [of "deriv c r"] by (auto simp: lang_deriv)
    qed
  qed
qed

lemma re_search_lang: "re_search r s \<longleftrightarrow> contains_match r s"
proof (induction s)
  case Nil
  then show ?case by (simp add: nullable_lang contains_match_def)
next
  case (Cons c cs)
  show ?case
  proof
    assume "re_search r (c # cs)"
    then consider "match_here r (c # cs)" | "contains_match r cs" using Cons by auto
    then show "contains_match r (c # cs)"
    proof cases
      case 1
      then obtain u q where "c # cs = [] @ u @ q" "u \<in> lang r"
        by (auto simp: match_here_lang)
      then show ?thesis unfolding contains_match_def by blast
    next
      case 2
      then obtain p u q where "cs = p @ u @ q" "u \<in> lang r"
        by (auto simp: contains_match_def)
      then have "c # cs = (c # p) @ u @ q" by simp
      then show ?thesis using \<open>u \<in> lang r\<close> unfolding contains_match_def by blast
    qed
  next
    assume "contains_match r (c # cs)"
    then obtain p u q where puq: "c # cs = p @ u @ q" "u \<in> lang r"
      by (auto simp: contains_match_def)
    show "re_search r (c # cs)"
    proof (cases p)
      case Nil
      then have "match_here r (c # cs)" using puq by (auto simp: match_here_lang)
      then show ?thesis by simp
    next
      case (Cons b p')
      then have "cs = p' @ u @ q" using puq by simp
      then have "contains_match r cs" using puq(2) unfolding contains_match_def by blast
      then show ?thesis using Cons.IH by simp
    qed
  qed
qed

subsection \<open>What the money pattern matches\<close>

lemma in_lang_Seqs_Cons:
  "w \<in> lang (Seqs (r # rs)) \<longleftrightarrow> (\<exists>u v. w = u @ v \<and> u \<in> lang r \<and> v \<in> lang (Seqs rs))"
  by (auto simp: Seqs_def)

lemma lang_Seqs_Nil: "lang (Seqs []) = {[]}"
  by (simp add: Seqs_def)

lemma lang_Opt: "lang (Opt r) = insert [] (lang r)"
  by (auto simp: Opt_def)

lemma cons_in_Digit_Seq:
  "c # cs \<in> lang (Seq Digit r) \<longleftrightarrow> is_digit c \<and> cs \<in> lang r"
proof
  assume "c # cs \<in> lang (Seq Digit r)"
  then obtain d v where "c # cs = [d] @ v" "is_digit d" "v \<in> lang r" by auto
  then show "is_digit c \<and> cs \<in> lang r" by simp
next
  assume "is_digit c \<and> cs \<in> lang r"
  then have "[c] \<in> lang Digit" "cs \<in> lang r" "c # cs = [c] @ cs" by simp_all
  then show "c # cs \<in> lang (Seq Digit r)" unfolding lang.simps by blast
qed

lemma lang_exactly_Digit:
  "w \<in> lang (exactly n Digit) \<longleftrightarrow> length w = n \<and> (\<forall>c \<in> set w. is_digit c)"
proof (induction n arbitrary: w)
  case 0
  then show ?case by auto
next
  case (Suc n)
  show ?case
  proof (cases w)
    case Nil
    then show ?thesis by simp
  next
    case (Cons c cs)
    then show ?thesis using Suc [of cs] by (auto simp: cons_in_Digit_Seq simp del: lang.simps)
  qed
qed

lemma lang_at_most_Digit:
  "w \<in> lang (at_most n Digit) \<longleftrightarrow> length w \<le> n \<and> (\<forall>c \<in> set w. is_digit c)"
proof (induction n arbitrary: w)
  case 0
  then show ?case by auto
next
  case (Suc n)
  show ?case
  proof (cases w)
    case Nil
    then show ?thesis by (simp add: lang_Opt)
  next
    case (Cons c cs)
    then show ?thesis using Suc [of cs]
      by (auto simp: lang_Opt cons_in_Digit_Seq simp del: lang.simps)
  qed
qed

lemma lang_Rep_Digit:
  "w \<in> lang (Rep Digit lo hi) \<longleftrightarrow>
     lo \<le> length w \<and> length w \<le> lo + (hi - lo) \<and> (\<forall>c \<in> set w. is_digit c)"
proof
  assume "w \<in> lang (Rep Digit lo hi)"
  then obtain u v where "w = u @ v" "u \<in> lang (exactly lo Digit)" "v \<in> lang (at_most (hi - lo) Digit)"
    by (auto simp: Rep_def)
  then show "lo \<le> length w \<and> length w \<le> lo + (hi - lo) \<and> (\<forall>c \<in> set w. is_digit c)"
    by (auto simp: lang_exactly_Digit lang_at_most_Digit)
next
  assume w: "lo \<le> length w \<and> length w \<le> lo + (hi - lo) \<and> (\<forall>c \<in> set w. is_digit c)"
  have "take lo w \<in> lang (exactly lo Digit)"
    using w by (auto simp: lang_exactly_Digit dest: in_set_takeD)
  moreover have "drop lo w \<in> lang (at_most (hi - lo) Digit)"
    using w by (auto simp: lang_at_most_Digit dest: in_set_dropD)
  moreover have "w = take lo w @ drop lo w" by simp
  ultimately show "w \<in> lang (Rep Digit lo hi)"
    unfolding Rep_def lang.simps by blast
qed

lemma digit_pair_here_iff:
  "digit_pair_here s \<longleftrightarrow>
     (\<exists>a b q. is_digit a \<and> is_digit b \<and> (s = [a, b] @ q \<or> s = [a, CHR '','', b] @ q))"
proof (cases s rule: digit_pair_here.cases)
  case (1 a b cs)
  then show ?thesis by (cases cs) auto
qed auto

lemma digit_pair_iff:
  "digit_pair s \<longleftrightarrow>
     (\<exists>p a b q. is_digit a \<and> is_digit b \<and> (s = p @ [a, b] @ q \<or> s = p @ [a, CHR '','', b] @ q))"
  (is "_ \<longleftrightarrow> ?R s")
proof (induction s)
  case Nil
  then show ?case by simp
next
  case (Cons c cs)
  show ?case
  proof
    assume "digit_pair (c # cs)"
    then consider "digit_pair_here (c # cs)" | "?R cs" using Cons by auto
    then show "?R (c # cs)"
    proof cases
      case 1
      then obtain a b q where "is_digit a" "is_digit b"
        "c # cs = [] @ [a, b] @ q \<or> c # cs = [] @ [a, CHR '','', b] @ q"
        unfolding digit_pair_here_iff by auto
      then show ?thesis by blast
    next
      case 2
      then obtain p a b q where "is_digit a" "is_digit b"
        "cs = p @ [a, b] @ q \<or> cs = p @ [a, CHR '','', b] @ q" by blast
      then have "is_digit a" "is_digit b"
        "c # cs = (c # p) @ [a, b] @ q \<or> c # cs = (c # p) @ [a, CHR '','', b] @ q" by auto
      then show ?thesis by blast
    qed
  next
    assume "?R (c # cs)"
    then obtain p a b q where ab: "is_digit a" "is_digit b"
      and s: "c # cs = p @ [a, b] @ q \<or> c # cs = p @ [a, CHR '','', b] @ q" by blast
    show "digit_pair (c # cs)"
    proof (cases p)
      case Nil
      then have "digit_pair_here (c # cs)"
        unfolding digit_pair_here_iff using ab s by auto
      then show ?thesis by simp
    next
      case (Cons d p')
      then have "cs = p' @ [a, b] @ q \<or> cs = p' @ [a, CHR '','', b] @ q" using s by auto
      then have "?R cs" using ab by blast
      then show ?thesis using Cons.IH by simp
    qed
  qed
qed

lemma money_pattern_shape:
  assumes "u \<in> lang money_pattern"
  shows "\<exists>x g c h y. u = x @ g @ c @ h @ y \<and> g \<in> lang (Rep Digit 1 3)
            \<and> (c = [] \<or> c = '','') \<and> h \<in> lang (Rep Digit 1 3)"
proof -
  from assms obtain x r1 where 1: "u = x @ r1"
    and "r1 \<in> lang (Seqs [Seqs [Rep Digit 1 3, Opt (Chr CHR '',''), Rep Digit 1 3, Opt (Chr CHR ''.''), Star Digit],
           Star Digit, Opt (Chr CHR '' ''), Opt (Alt (Str ''dollars'') (Str ''USD''))])"
    unfolding money_pattern_def in_lang_Seqs_Cons [of u] by blast
  then obtain m y1 where 2: "r1 = m @ y1"
    and "m \<in> lang (Seqs [Rep Digit 1 3, Opt (Chr CHR '',''), Rep Digit 1 3, Opt (Chr CHR ''.''), Star Digit])"
    unfolding in_lang_Seqs_Cons [of r1] by blast
  then obtain g m1 where 3: "m = g @ m1" and g: "g \<in> lang (Rep Digit 1 3)"
    and "m1 \<in> lang (Seqs [Opt (Chr CHR '',''), Rep Digit 1 3, Opt (Chr CHR ''.''), Star Digit])"
    unfolding in_lang_Seqs_Cons [of m] by blast
  then obtain c m2 where 4: "m1 = c @ m2" and c: "c \<in> lang (Opt (Chr CHR '',''))"
    and "m2 \<in> lang (Seqs [Rep Digit 1 3, Opt (Chr CHR ''.''), Star Digit])"
    unfolding in_lang_Seqs_Cons [of m1] by blast
  then obtain h m3 where 5: "m2 = h @ m3" and h: "h \<in> lang (Rep Digit 1 3)"
    unfolding in_lang_Seqs_Cons [of m2] by blast
  have "u = x @ g @ c @ h @ (m3 @ y1)" using 1 2 3 4 5 by simp
  moreover have "c = [] \<or> c = '',''" using c by (auto simp: lang_Opt)
  ultimately show ?thesis using g h by blast
qed

lemma pair_in_money_pattern:
  assumes "is_digit a" "is_digit b" "c = [] \<or> c = '',''"
  shows "[a] @ c @ [b] \<in> lang money_pattern"
proof -
  have a: "[a] \<in> lang (Rep Digit 1 3)" and b: "[b] \<in> lang (Rep Digit 1 3)"
    using assms by (simp_all add: lang_Rep_Digit)
  have c: "c \<in> lang (Opt (Chr CHR '',''))" using assms(3) by (auto simp: lang_Opt)
  have "[] \<in> lang (Seqs [Opt (Chr CHR ''.''), Star Digit])"
    by (simp add: Seqs_def Opt_def star_empty)
  then have "[b] @ [] \<in> lang (Seqs [Rep Digit 1 3, Opt (Chr CHR ''.''), Star Digit])"
    using b unfolding in_lang_Seqs_Cons [of "[b] @ []"] by blast
  then have "c @ [b] @ [] \<in> lang (Seqs [Opt (Chr CHR '',''), Rep Digit 1 3, Opt (Chr CHR ''.''), Star Digit])"
    using c unfolding in_lang_Seqs_Cons [of "c @ [b] @ []"] by blast
  then have grp: "[a] @ c @ [b] @ [] \<in> lang (Seqs [Rep Digit 1 3, Opt (Chr CHR '',''), Rep Digit 1 3, Opt (Chr CHR ''.''), Star Digit])"
    using a unfolding in_lang_Seqs_Cons [of "[a] @ c @ [b] @ []"] by blast
  have "[] \<in> lang (Seqs [Star Digit, Opt (Chr CHR '' ''), Opt (Alt (Str ''dollars'') (Str ''USD''))])"
    by (simp add: Seqs_def Opt_def star_empty)
  then have "([a] @ c @ [b] @ []) @ [] \<in> lang (Seqs [Seqs [Rep Digit 1 3, Opt (Chr CHR '',''), Rep Digit 1 3, Opt (Chr CHR ''.''), Star Digit],
           Star Digit, Opt (Chr CHR '' ''), Opt (Alt (Str ''dollars'') (Str ''USD''))])"
    using grp unfolding in_lang_Seqs_Cons [of "([a] @ c @ [b] @ []) @ []"] by blast
  moreover have "[] \<in> lang (Opt (Chr CHR ''$''))" by (simp add: lang_Opt)
  ultimately have "[] @ ([a] @ c @ [b] @ []) @ [] \<in> lang money_pattern"
    unfolding money_pattern_def in_lang_Seqs_Cons [of "[] @ ([a] @ c @ [b] @ []) @ []"] by blast
  then show ?thesis by simp
qed

lemma digit_pairI:
  "is_digit a \<Longrightarrow> is_digit b \<Longrightarrow> s = p @ [a, b] @ q \<or> s = p @ [a, CHR '','', b] @ q
     \<Longrightarrow> digit_pair s"
  unfolding digit_pair_iff by blast

lemma contains_matchI: "u \<in> lang r \<Longrightarrow> s = p @ u @ q \<Longrightarrow> contains_match r s"
  unfolding contains_match_def by blast

lemma contains_money_pattern_iff: "contains_match money_pattern s \<longleftrightarrow> digit_pair s"
proof
  assume "contains_match money_pattern s"
  then obtain p u q where s: "s = p @ u @ q" and "u \<in> lang money_pattern"
    unfolding contains_match_def by blast
  from money_pattern_shape [OF this(2)] obtain x g c h y where
    u: "u = x @ g @ c @ h @ y" and g: "g \<in> lang (Rep Digit 1 3)"
    and c: "c = [] \<or> c = '',''" and h: "h \<in> lang (Rep Digit 1 3)" by blast
  from g obtain g1 a where g1: "g = g1 @ [a]" and a: "is_digit a"
    by (cases g rule: rev_cases) (auto simp: lang_Rep_Digit)
  from h obtain b h1 where h1: "h = b # h1" and b: "is_digit b"
    by (cases h) (auto simp: lang_Rep_Digit)
  from c have "s = (p @ x @ g1) @ [a, b] @ (h1 @ y @ q)
      \<or> s = (p @ x @ g1) @ [a, CHR '','', b] @ (h1 @ y @ q)"
    using s u g1 h1 by auto
  with a b show "digit_pair s" by (rule digit_pairI)
next
  assume "digit_pair s"
  then obtain p a b q where ab: "is_digit a" "is_digit b"
    and alt: "s = p @ [a, b] @ q \<or> s = p @ [a, CHR '','', b] @ q"
    unfolding digit_pair_iff by blast
  from alt show "contains_match money_pattern s"
  proof
    assume "s = p @ [a, b] @ q"
    then have "s = p @ ([a] @ [] @ [b]) @ q" by simp
    moreover have "[a] @ [] @ [b] \<in> lang money_pattern"
      by (rule pair_in_money_pattern [OF ab]) simp
    ultimately show ?thesis by (rule contains_matchI [rotated])
  next
    assume "s = p @ [a, CHR '','', b] @ q"
    then have "s = p @ ([a] @ '','' @ [b]) @ q" by simp
    moreover have "[a] @ '','' @ [b] \<in> lang money_pattern"
      by (rule pair_in_money_pattern [OF ab]) simp
    ultimately show ?thesis by (rule contains_matchI [rotated])
  qed
qed


lemma has_money_digit_pair:
  "has_money a \<longleftrightarrow> digit_pair (title a) \<or> digit_pair (description a)"
  by (simp add: has_money_def re_search_lang contains_money_pattern_iff)

lemma two_consecutive_digits_pair: "two_consecutive_digits s \<Longrightarrow> digit_pair s"
  by (induction s rule: two_consecutive_digits.induct) auto

lemma currency_form_2_digit_pair:
  assumes "contains_match (currency_form 2 rest) s"
  shows "digit_pair s"
proof -
  from assms obtain p u q where s: "s = p @ u @ q" and "u \<in> lang (currency_form 2 rest)"
    unfolding contains_match_def by blast
  then obtain x r1 where 1: "u = x @ r1" and "r1 \<in> lang (Seqs [Rep Digit 2 3, rest])"
    unfolding currency_form_def in_lang_Seqs_Cons [of u] by blast
  then obtain g y where 2: "r1 = g @ y" and g: "g \<in> lang (Rep Digit 2 3)"
    unfolding in_lang_Seqs_Cons [of r1] by blast
  from g have "2 \<le> length g" and dg: "\<forall>c \<in> set g. is_digit c"
    by (simp_all add: lang_Rep_Digit)
  then obtain a b g' where g': "g = a # b # g'"
    by (cases g; cases "tl g") auto
  have "s = (p @ x) @ [a, b] @ (g' @ y @ q)" using s 1 2 g' by simp
  moreover have "is_digit a" "is_digit b" using dg g' by simp_all
  ultimately show ?thesis using digit_pairI by blast
qed

lemma digit_pair_currency_form_1:
  assumes "digit_pair s" "nullable rest"
  shows "contains_match (currency_form 1 rest) s"
proof -
  from assms(1) obtain p a b q where a: "is_digit a"
    and "s = p @ [a, b] @ q \<or> s = p @ [a, CHR '','', b] @ q"
    unfolding digit_pair_iff by blast
  then obtain q' where s: "s = p @ [a] @ q'" by auto
  have "[] \<in> lang (Seqs [rest])"
    using assms(2) by (simp add: Seqs_def nullable_lang)
  moreover have "[a] \<in> lang (Rep Digit 1 3)" using a by (simp add: lang_Rep_Digit)
  ultimately have "[a] @ [] \<in> lang (Seqs [Rep Digit 1 3, rest])"
    unfolding in_lang_Seqs_Cons [of "[a] @ []"] by blast
  moreover have "[] \<in> lang (Opt (Chr CHR ''$''))" by (simp add: lang_Opt)
  ultimately have "[] @ [a] @ [] \<in> lang (currency_form 1 rest)"
    unfolding currency_form_def in_lang_Seqs_Cons [of "[] @ [a] @ []"] by blast
  then have "[a] \<in> lang (currency_form 1 rest)" by simp
  then show ?thesis using s by (rule contains_matchI)
qed

text \<open>
  C6, as the program has it. \<open>has_money\<close> is true when the title or the description holds a
  currency form with two or three leading digits (an optional \<^verbatim>\<open>$\<close> before them; grouping,
  decimals and \<^verbatim>\<open>dollars\<close> or \<^verbatim>\<open>USD\<close>, here any \<open>rest\<close>, after them); and it is false when
  neither field holds a currency form at all, a form's optional parts being absent in the
  least case (\<open>nullable rest\<close>). One leading digit alone is not enough.
\<close>

theorem has_money_currency_forms:
  "(re_search (currency_form 2 rest) (title a) \<or> re_search (currency_form 2 rest) (description a)
      \<longrightarrow> has_money a)
   \<and> (nullable rest \<and> \<not> re_search (currency_form 1 rest) (title a)
        \<and> \<not> re_search (currency_form 1 rest) (description a)
      \<longrightarrow> \<not> has_money a)"
  using currency_form_2_digit_pair [of rest] digit_pair_currency_form_1 [of _ rest]
  by (auto simp: has_money_digit_pair re_search_lang)

text \<open>
  The three amounts of the specification, each found by the first half of the theorem, and a
  text without a digit, rejected by the second half.
\<close>

theorem has_money_currency_forms_witness:
  "re_search (currency_form 2 spec_optional_parts) ''$1,234.56''
   \<and> has_money \<lparr>title = ''$1,234.56'',
        date = \<lparr>year = 2024, month = 4, day = 10, hour = 0, minute = 0, second = 0,
                microsecond = 0\<rparr>,
        description = [], image_url = []\<rparr>
   \<and> re_search (currency_form 2 spec_optional_parts) ''500 dollars''
   \<and> has_money \<lparr>title = [],
        date = \<lparr>year = 2024, month = 4, day = 10, hour = 0, minute = 0, second = 0,
                microsecond = 0\<rparr>,
        description = ''500 dollars'', image_url = []\<rparr>
   \<and> re_search (currency_form 2 spec_optional_parts) ''1000 USD''
   \<and> has_money \<lparr>title = ''1000 USD'',
        date = \<lparr>year = 2024, month = 4, day = 10, hour = 0, minute = 0, second = 0,
                microsecond = 0\<rparr>,
        description = [], image_url = []\<rparr>
   \<and> nullable spec_optional_parts
   \<and> \<not> re_search (currency_form 1 spec_optional_parts) ''no price''
   \<and> \<not> re_search (currency_form 1 spec_optional_parts) ''many dollars''
   \<and> \<not> has_money \<lparr>title = ''no price'',
        date = \<lparr>year = 2024, month = 4, day = 10, hour = 0, minute = 0, second = 0,
                microsecond = 0\<rparr>,
        description = ''many dollars'', image_url = []\<rparr>"
proof -
  let ?d = "\<lparr>year = 2024, month = 4, day = 10, hour = 0, minute = 0, second = 0,
                microsecond = 0\<rparr> :: datetime"
  have 1: "re_search (currency_form 2 spec_optional_parts) ''$1,234.56''" by code_simp
  have 2: "re_search (currency_form 2 spec_optional_parts) ''500 dollars''" by code_simp
  have 3: "re_search (currency_form 2 spec_optional_parts) ''1000 USD''" by code_simp
  have 4: "nullable spec_optional_parts" by code_simp
  have 5: "\<not> re_search (currency_form 1 spec_optional_parts) ''no price''" by code_simp
  have 6: "\<not> re_search (currency_form 1 spec_optional_parts) ''many dollars''" by code_simp
  let ?A = "\<lparr>title = ''$1,234.56'', date = ?d, description = [], image_url = []\<rparr>"
  let ?B = "\<lparr>title = [], date = ?d, description = ''500 dollars'', image_url = []\<rparr>"
  let ?C = "\<lparr>title = ''1000 USD'', date = ?d, description = [], image_url = []\<rparr>"
  let ?D = "\<lparr>title = ''no price'', date = ?d, description = ''many dollars'', image_url = []\<rparr>"
  have "re_search (currency_form 2 spec_optional_parts) (title ?A)"
    using 1 by (simp only: NewInformation.select_convs)
  with has_money_currency_forms [of spec_optional_parts ?A] have a: "has_money ?A" by blast
  have "re_search (currency_form 2 spec_optional_parts) (description ?B)"
    using 2 by (simp only: NewInformation.select_convs)
  with has_money_currency_forms [of spec_optional_parts ?B] have b: "has_money ?B" by blast
  have "re_search (currency_form 2 spec_optional_parts) (title ?C)"
    using 3 by (simp only: NewInformation.select_convs)
  with has_money_currency_forms [of spec_optional_parts ?C] have c: "has_money ?C" by blast
  have "\<not> re_search (currency_form 1 spec_optional_parts) (title ?D)"
    "\<not> re_search (currency_form 1 spec_optional_parts) (description ?D)"
    using 5 6 by (simp_all only: NewInformation.select_convs not_False_eq_True)
  with 4 has_money_currency_forms [of spec_optional_parts ?D] have d: "\<not> has_money ?D" by blast
  show ?thesis by (simp only: 1 2 3 4 5 6 a b c d simp_thms)
qed

text \<open>
  The claim as the specification words it, with one to three digits, fails: \<^verbatim>\<open>$5\<close> and
  \<^verbatim>\<open>5 dollars\<close> are currency forms, and \<open>has_money\<close> is false for them.
\<close>

theorem has_money_single_digit_counterexample:
  "re_search (currency_form 1 spec_optional_parts) ''$5''
   \<and> re_search (currency_form 1 spec_optional_parts) ''5 dollars''
   \<and> \<not> has_money \<lparr>title = ''$5'',
        date = \<lparr>year = 2024, month = 4, day = 10, hour = 0, minute = 0, second = 0,
                microsecond = 0\<rparr>,
        description = ''5 dollars'', image_url = []\<rparr>"
proof (intro conjI)
  show "re_search (currency_form 1 spec_optional_parts) ''$5''" by code_simp
next
  show "re_search (currency_form 1 spec_optional_parts) ''5 dollars''" by code_simp
next
  have "\<not> digit_pair ''$5''" "\<not> digit_pair ''5 dollars''"
    by code_simp+
  then show "\<not> has_money \<lparr>title = ''$5'',
        date = \<lparr>year = 2024, month = 4, day = 10, hour = 0, minute = 0, second = 0,
                microsecond = 0\<rparr>,
        description = ''5 dollars'', image_url = []\<rparr>"
    by (simp add: has_money_digit_pair)
qed

text \<open>
  C9, as the program has it. \<open>has_money\<close> is true exactly when the title or the description
  holds two digits that stand side by side or have one comma between them; so it is true
  for every text with two consecutive digits, whatever else the text holds.
\<close>

theorem has_money_characterised:
  "(has_money a \<longleftrightarrow> digit_pair (title a) \<or> digit_pair (description a))
   \<and> (two_consecutive_digits (title a) \<or> two_consecutive_digits (description a)
        \<longrightarrow> has_money a)"
  using two_consecutive_digits_pair by (auto simp: has_money_digit_pair)

text \<open>
  A bare year is taken for money; single digits with \<^verbatim>\<open>$\<close> and \<^verbatim>\<open>dollars\<close> around them
  are not.
\<close>

theorem has_money_characterised_witness:
  "two_consecutive_digits ''In 2024''
   \<and> has_money \<lparr>title = ''In 2024'',
        date = \<lparr>year = 2024, month = 4, day = 10, hour = 0, minute = 0, second = 0,
                microsecond = 0\<rparr>,
        description = [], image_url = []\<rparr>
   \<and> \<not> has_money \<lparr>title = ''$5 or 7 dollars'',
        date = \<lparr>year = 2024, month = 4, day = 10, hour = 0, minute = 0, second = 0,
                microsecond = 0\<rparr>,
        description = ''USD 3.5'', image_url = []\<rparr>"
proof -
  let ?d = "\<lparr>year = 2024, month = 4, day = 10, hour = 0, minute = 0, second = 0,
                microsecond = 0\<rparr> :: datetime"
  let ?A = "\<lparr>title = ''In 2024'', date = ?d, description = [], image_url = []\<rparr>"
  let ?B = "\<lparr>title = ''$5 or 7 dollars'', date = ?d, description = ''USD 3.5'', image_url = []\<rparr>"
  have 1: "two_consecutive_digits ''In 2024''" by code_simp
  then have "two_consecutive_digits (title ?A)"
    by (simp only: NewInformation.select_convs)
  with has_money_characterised [of ?A] have a: "has_money ?A" by blast
  have "\<not> digit_pair ''$5 or 7 dollars''" "\<not> digit_pair ''USD 3.5''"
    by code_simp+
  then have "\<not> digit_pair (title ?B)" "\<not> digit_pair (description ?B)"
    by (simp_all only: NewInformation.select_convs not_False_eq_True)
  with has_money_characterised [of ?B] have b: "\<not> has_money ?B" by blast
  show ?thesis by (simp only: 1 a b simp_thms)
qed

text \<open>
  The second half of the claim fails: \<^verbatim>\<open>1,2\<close> has no two digits in a row, and \<open>has_money\<close>
  is true for it, the comma being the optional grouping mark between the two digit groups.
\<close>

theorem has_money_comma_counterexample:
  "\<not> two_consecutive_digits ''1,2''
   \<and> has_money \<lparr>title = ''1,2'',
        date = \<lparr>year = 2024, month = 4, day = 10, hour = 0, minute = 0, second = 0,
                microsecond = 0\<rparr>,
        description = [], image_url = []\<rparr>"
proof
  show "\<not> two_consecutive_digits ''1,2''" by code_simp
next
  have "digit_pair ''1,2''" by code_simp
  then show "has_money \<lparr>title = ''1,2'',
        date = \<lparr>year = 2024, month = 4, day = 10, hour = 0, minute = 0, second = 0,
                microsecond = 0\<rparr>,
        description = [], image_url = []\<rparr>"
    by (simp add: has_money_digit_pair)
qed

subsection \<open>The parameters of a run\<close>

lemma get_or_JObj: "get_or (JObj sp) k dflt = Inr (value_or dflt (map_of sp k))"
proof (cases "map_of sp k")
  case None
  then show ?thesis by (simp add: get_or_def)
next
  case (Some v)
  then show ?thesis by (cases v) (simp_all add: get_or_def)
qed

text \<open>
  C8, as the program has it. For every payload that is a mapping whose \<^verbatim>\<open>search\<close> entry is
  absent, \<^verbatim>\<open>null\<close> or a mapping, the construction of the parameters succeeds, and each
  accessor returns the value of its own key in the \<^verbatim>\<open>search\<close> mapping, or its default (the
  empty text, zero, the empty text) when the mapping or the key is absent.
\<close>

theorem NewsParameters_never_fails:
  assumes "map_of kvs ''search'' = None \<or> map_of kvs ''search'' = Some JNull
           \<or> (\<exists>sp. map_of kvs ''search'' = Some (JObj sp))"
  shows "\<exists>p. NewsParameters_init (JObj kvs) = Inr p
           \<and> get_phrase p = value_or (JStr []) (search_entry kvs ''phrase'')
           \<and> get_months p = value_or (JInt 0) (search_entry kvs ''months'')
           \<and> get_topic p = value_or (JStr []) (search_entry kvs ''topic'')"
  using assms
proof (elim disjE exE)
  assume "map_of kvs ''search'' = None"
  then show ?thesis
    by (simp add: NewsParameters_init_def search_entry_def get_phrase_def get_months_def
        get_topic_def)
next
  assume "map_of kvs ''search'' = Some JNull"
  then show ?thesis
    by (simp add: NewsParameters_init_def search_entry_def get_phrase_def get_months_def
        get_topic_def)
next
  fix sp
  assume "map_of kvs ''search'' = Some (JObj sp)"
  then show ?thesis
    by (simp add: NewsParameters_init_def search_entry_def get_phrase_def get_months_def
        get_topic_def get_or_JObj)
qed

text \<open>
  The theorem at three payloads: an empty one, one with an empty \<^verbatim>\<open>search\<close> mapping, and
  one that sets the months and leaves the topic \<^verbatim>\<open>null\<close>.
\<close>

theorem NewsParameters_never_fails_witness:
  "(\<exists>p. NewsParameters_init (JObj []) = Inr p
      \<and> get_phrase p = JStr [] \<and> get_months p = JInt 0 \<and> get_topic p = JStr [])
   \<and> (\<exists>p. NewsParameters_init (JObj [(''search'', JObj [])]) = Inr p
      \<and> get_phrase p = JStr [] \<and> get_months p = JInt 0 \<and> get_topic p = JStr [])
   \<and> (\<exists>p. NewsParameters_init
            (JObj [(''search'', JObj [(''months'', JInt 3), (''topic'', JNull)])]) = Inr p
      \<and> get_phrase p = JStr [] \<and> get_months p = JInt 3 \<and> get_topic p = JStr [])"
proof (intro conjI)
  show "\<exists>p. NewsParameters_init (JObj []) = Inr p
      \<and> get_phrase p = JStr [] \<and> get_months p = JInt 0 \<and> get_topic p = JStr []"
    using NewsParameters_never_fails [of "[]"] by (simp add: search_entry_def)
next
  show "\<exists>p. NewsParameters_init (JObj [(''search'', JObj [])]) = Inr p
      \<and> get_phrase p = JStr [] \<and> get_months p = JInt 0 \<and> get_topic p = JStr []"
    using NewsParameters_never_fails [of "[(''search'', JObj [])]"]
    by (simp add: search_entry_def)
next
  show "\<exists>p. NewsParameters_init
            (JObj [(''search'', JObj [(''months'', JInt 3), (''topic'', JNull)])]) = Inr p
      \<and> get_phrase p = JStr [] \<and> get_months p = JInt 3 \<and> get_topic p = JStr []"
    using NewsParameters_never_fails
      [of "[(''search'', JObj [(''months'', JInt 3), (''topic'', JNull)])]"]
    by (simp add: search_entry_def)
qed

text \<open>
  Not every payload can be read: the constructor calls \<^verbatim>\<open>get\<close> on the payload and on its
  \<^verbatim>\<open>search\<close> entry, and a payload that is \<^verbatim>\<open>null\<close>, or a \<^verbatim>\<open>search\<close> entry that is a text
  or a list, has no such method.
\<close>

theorem NewsParameters_payload_counterexample:
  "NewsParameters_init JNull = Inl AttributeError
   \<and> NewsParameters_init (JObj [(''search'', JStr ''economy'')]) = Inl AttributeError
   \<and> NewsParameters_init (JObj [(''search'', JList [])]) = Inl AttributeError"
  by (simp add: NewsParameters_init_def get_or_def)

subsection \<open>The cutoff date\<close>

lemma relativedelta_init_shape:
  "\<exists>y m. relativedelta_init 0 k = \<lparr>delta_years = y, delta_months = m\<rparr>
         \<and> y * 12 + m = k \<and> abs m \<le> 11"
proof -
  consider "abs k \<le> 11" | "11 < k" | "k < - 11" by linarith
  then show ?thesis
  proof cases
    case 1
    then show ?thesis by (simp add: relativedelta_init_def fix_delta_def)
  next
    case 2
    then have "relativedelta_init 0 k = \<lparr>delta_years = k div 12, delta_months = k mod 12\<rparr>"
      by (simp add: relativedelta_init_def fix_delta_def sign_def Let_def)
    moreover have "k div 12 * 12 + k mod 12 = k" by simp
    moreover have "abs (k mod 12) \<le> 11"
      using pos_mod_bound [of 12 k] pos_mod_sign [of 12 k] by linarith
    ultimately show ?thesis by blast
  next
    case 3
    then have "relativedelta_init 0 k =
        \<lparr>delta_years = - ((- k) div 12), delta_months = - ((- k) mod 12)\<rparr>"
      by (simp add: relativedelta_init_def fix_delta_def sign_def Let_def)
    moreover have "- ((- k) div 12) * 12 + - ((- k) mod 12) = k"
      using div_mult_mod_eq [of "- k" 12] by linarith
    moreover have "abs (- ((- k) mod 12)) \<le> 11"
      using pos_mod_bound [of 12 "- k"] pos_mod_sign [of 12 "- k"] by linarith
    ultimately show ?thesis by blast
  qed
qed

lemma neg_delta_small:
  "abs m \<le> 11 \<Longrightarrow>
     neg_delta \<lparr>delta_years = y, delta_months = m\<rparr> = \<lparr>delta_years = - y, delta_months = - m\<rparr>"
  by (simp add: neg_delta_def relativedelta_init_def fix_delta_def)

lemma div_mod_12:
  "0 \<le> r \<Longrightarrow> r < 12 \<Longrightarrow> i = a * 12 + r \<Longrightarrow> i div 12 = a \<and> i mod 12 = (r::int)"
  by presburger

lemma add_delta_small:
  assumes "abs m \<le> 11" "1 \<le> month dt" "month dt \<le> 12"
  shows "add_delta \<lparr>delta_years = y, delta_months = m\<rparr> dt =
           replace_date dt ((month_index dt + (y * 12 + m)) div 12)
             ((month_index dt + (y * 12 + m)) mod 12 + 1)
             (min (month_length ((month_index dt + (y * 12 + m)) div 12)
                     ((month_index dt + (y * 12 + m)) mod 12 + 1)) (day dt))"
proof -
  let ?i = "month_index dt + (y * 12 + m)"
  let ?M = "month dt + m"
  obtain Y M where YM: "Y = (if 12 < ?M then year dt + y + 1
                             else if ?M < 1 then year dt + y - 1 else year dt + y)"
      "M = (if 12 < ?M then ?M - 12 else if ?M < 1 then ?M + 12 else ?M)"
    by blast
  have run: "add_delta \<lparr>delta_years = y, delta_months = m\<rparr> dt =
               replace_date dt Y M (min (month_length Y M) (day dt))"
    using YM assms by (auto simp: add_delta_def Let_def)
  have "?i = Y * 12 + (M - 1)"
    using YM by (simp add: month_index_def algebra_simps)
  moreover have "0 \<le> M - 1" "M - 1 < 12" using YM assms by (simp_all; linarith)+
  ultimately have "?i div 12 = Y \<and> ?i mod 12 = M - 1"
    using div_mod_12 by blast
  then have "?i div 12 = Y" "?i mod 12 + 1 = M" by simp_all
  then show ?thesis using run by (simp only:)
qed

lemma month_length_pos: "1 \<le> m \<Longrightarrow> m \<le> 12 \<Longrightarrow> 28 \<le> month_length y m"
proof -
  assume "1 \<le> m" "m \<le> 12"
  then have "m = 1 \<or> m = 2 \<or> m = 3 \<or> m = 4 \<or> m = 5 \<or> m = 6 \<or> m = 7 \<or> m = 8
      \<or> m = 9 \<or> m = 10 \<or> m = 11 \<or> m = 12" by arith
  then show ?thesis by (auto simp: month_length_def mdays_def)
qed

lemma month_length_le: "month_length y m \<le> 31"
proof (cases "1 \<le> m \<and> m \<le> 12")
  case True
  then have "m = 1 \<or> m = 2 \<or> m = 3 \<or> m = 4 \<or> m = 5 \<or> m = 6 \<or> m = 7 \<or> m = 8
      \<or> m = 9 \<or> m = 10 \<or> m = 11 \<or> m = 12" by arith
  then show ?thesis by (auto simp: month_length_def mdays_def)
next
  case False
  then show ?thesis by (auto simp: month_length_def mdays_def)
qed

text \<open>The cutoff in closed form.\<close>

lemma max_date_to_search_closed:
  assumes "1 \<le> month now" "month now \<le> 12" "1 \<le> day now"
  shows "max_date_to_search now months =
           (let c = first_of_month now (if months \<noteq> 0 then months - 1 else 0)
            in if 1 \<le> year c \<and> year c \<le> 9999 then Inr c
               else Inl (if fits_c_int (year c) then ValueError else OverflowError))"
proof -
  let ?k = "if months \<noteq> 0 then months - 1 else 0"
  let ?i = "month_index now - ?k"
  obtain y m where d: "relativedelta_init 0 ?k = \<lparr>delta_years = y, delta_months = m\<rparr>"
    and k: "y * 12 + m = ?k" and m: "abs m \<le> 11"
    using relativedelta_init_shape [of ?k] by blast
  have "sub_delta now (relativedelta_init 0 ?k) =
          add_delta \<lparr>delta_years = - y, delta_months = - m\<rparr> now"
    using d m by (simp add: sub_delta_def neg_delta_small)
  also have "\<dots> = replace_date now (?i div 12) (?i mod 12 + 1)
                   (min (month_length (?i div 12) (?i mod 12 + 1)) (day now))"
  proof -
    have "month_index now + (- y * 12 + - m) = ?i" using k by linarith
    then show ?thesis
      using add_delta_small [of "- m" now "- y"] m assms by simp
  qed
  finally have s: "sub_delta now (relativedelta_init 0 ?k) =
      replace_date now (?i div 12) (?i mod 12 + 1)
        (min (month_length (?i div 12) (?i mod 12 + 1)) (day now))" .
  obtain Y M D where Y: "Y = ?i div 12" and M: "M = ?i mod 12 + 1"
    and D: "D = min (month_length (?i div 12) (?i mod 12 + 1)) (day now)" by blast
  have mo: "1 \<le> M" "M \<le> 12"
    using pos_mod_bound [of 12 ?i] pos_mod_sign [of 12 ?i] M by linarith+
  have len: "28 \<le> month_length Y M"
    using month_length_pos [OF mo] .
  have D': "D = min (month_length Y M) (day now)" using D Y M by (simp only:)
  have dd: "1 \<le> D" "D \<le> month_length Y M" "D \<le> 31"
    using D' len assms(3) month_length_le [of Y M] by simp_all
  have fit: "fits_c_int M" "fits_c_int D" "fits_c_int 1"
    using mo dd by (simp_all add: fits_c_int_def)
  have s': "sub_delta now (relativedelta_init 0 ?k) = replace_date now Y M D"
    using s Y M D by (simp only:)
  have c: "first_of_month now ?k = now\<lparr>year := Y, month := M, day := 1\<rparr>"
    using Y M by (simp only: first_of_month_def)
  have yc: "year (first_of_month now ?k) = Y" by (simp only: c) simp
  show ?thesis
  proof (cases "1 \<le> Y \<and> Y \<le> 9999")
    case True
    then have fy: "fits_c_int Y" by (simp add: fits_c_int_def)
    have "sub_delta now (relativedelta_init 0 ?k) = Inr (now\<lparr>year := Y, month := M, day := D\<rparr>)"
      using s' True fy fit mo dd by (simp add: replace_date_def)
    then have "max_date_to_search now months = Inr (now\<lparr>year := Y, month := M, day := 1\<rparr>)"
      using True fy fit mo len by (simp add: max_date_to_search_def replace_date_def)
    then show ?thesis using True yc c by (simp only: Let_def simp_thms if_True)
  next
    case False
    then have "sub_delta now (relativedelta_init 0 ?k) =
        Inl (if fits_c_int Y then ValueError else OverflowError)"
      using s' fit by (auto simp: replace_date_def)
    then have "max_date_to_search now months =
        Inl (if fits_c_int Y then ValueError else OverflowError)"
      by (simp add: max_date_to_search_def)
    then show ?thesis using False yc by (simp only: Let_def simp_thms if_False)
  qed
qed

lemma month_index_first_of_month:
  "month_index (first_of_month now k) = month_index now - k"
  by (simp add: month_index_def first_of_month_def)

text \<open>
  C3, as the program has it. For every number of months and every reading \<open>now\<close> of the
  clock, the cutoff is the first day of the month that lies \<open>months - 1\<close> months before the
  month of \<open>now\<close> (the month of \<open>now\<close> itself when \<open>months\<close> is zero), at the time of day
  of \<open>now\<close>: only the day is replaced, the hour, minute, second and microsecond are kept.
  That holds when the year of that month is a year of the calendar, 1 to 9999; otherwise no
  cutoff is computed: building the date raises \<^verbatim>\<open>ValueError\<close>, or \<^verbatim>\<open>OverflowError\<close>
  when the year does not fit a machine integer of 32 bits.
\<close>

theorem max_date_to_search_first_of_month:
  assumes "valid_datetime now"
    and "k = (if months = 0 then 0 else months - 1)"
  shows "(1 \<le> year (first_of_month now k) \<and> year (first_of_month now k) \<le> 9999
            \<longrightarrow> max_date_to_search now months = Inr (first_of_month now k))
         \<and> (\<not> (1 \<le> year (first_of_month now k) \<and> year (first_of_month now k) \<le> 9999)
            \<longrightarrow> max_date_to_search now months
                  = Inl (if fits_c_int (year (first_of_month now k)) then ValueError
                         else OverflowError))
         \<and> month_index (first_of_month now k) = month_index now - k
         \<and> 1 \<le> month (first_of_month now k) \<and> month (first_of_month now k) \<le> 12
         \<and> day (first_of_month now k) = 1
         \<and> hour (first_of_month now k) = hour now
         \<and> minute (first_of_month now k) = minute now
         \<and> second (first_of_month now k) = second now
         \<and> microsecond (first_of_month now k) = microsecond now"
proof -
  have k: "(if months \<noteq> 0 then months - 1 else 0) = k" using assms(2) by simp
  have "1 \<le> month now" "month now \<le> 12" "1 \<le> day now"
    using assms(1) by (simp_all add: valid_datetime_def)
  from max_date_to_search_closed [OF this, of months]
  have "max_date_to_search now months =
          (if 1 \<le> year (first_of_month now k) \<and> year (first_of_month now k) \<le> 9999
           then Inr (first_of_month now k)
           else Inl (if fits_c_int (year (first_of_month now k)) then ValueError
                     else OverflowError))"
    unfolding k by (simp only: Let_def)
  moreover have "1 \<le> month (first_of_month now k)" "month (first_of_month now k) \<le> 12"
    using pos_mod_bound [of 12 "month_index now - k"] pos_mod_sign [of 12 "month_index now - k"]
    by (simp_all add: first_of_month_def)
  moreover have "day (first_of_month now k) = 1" "hour (first_of_month now k) = hour now"
    "minute (first_of_month now k) = minute now" "second (first_of_month now k) = second now"
    "microsecond (first_of_month now k) = microsecond now"
    by (simp_all add: first_of_month_def)
  ultimately show ?thesis
    using month_index_first_of_month [of now k] by simp
qed

text \<open>
  With three months asked for on 2024-05-15 at midnight the cutoff is 2024-03-01 at
  midnight, and with zero months it is 2024-05-01. Thirty thousand months lead before the
  year 1, and no cutoff is computed.
\<close>

theorem max_date_to_search_first_of_month_witness:
  "valid_datetime \<lparr>year = 2024, month = 5, day = 15, hour = 0, minute = 0, second = 0,
                    microsecond = 0\<rparr>
   \<and> max_date_to_search \<lparr>year = 2024, month = 5, day = 15, hour = 0, minute = 0, second = 0,
                          microsecond = 0\<rparr> 3
       = Inr \<lparr>year = 2024, month = 3, day = 1, hour = 0, minute = 0, second = 0,
              microsecond = 0\<rparr>
   \<and> max_date_to_search \<lparr>year = 2024, month = 5, day = 15, hour = 0, minute = 0, second = 0,
                          microsecond = 0\<rparr> 0
       = Inr \<lparr>year = 2024, month = 5, day = 1, hour = 0, minute = 0, second = 0,
              microsecond = 0\<rparr>
   \<and> year (first_of_month \<lparr>year = 2024, month = 5, day = 15, hour = 0, minute = 0,
                             second = 0, microsecond = 0\<rparr> 29999) = - 476
   \<and> max_date_to_search \<lparr>year = 2024, month = 5, day = 15, hour = 0, minute = 0, second = 0,
                          microsecond = 0\<rparr> 30000
       = Inl ValueError"
proof -
  let ?now = "\<lparr>year = 2024, month = 5, day = 15, hour = 0, minute = 0, second = 0,
                microsecond = 0\<rparr> :: datetime"
  have v: "valid_datetime ?now"
    by (simp add: valid_datetime_def month_length_def mdays_def)
  have 3: "first_of_month ?now 2 = \<lparr>year = 2024, month = 3, day = 1, hour = 0, minute = 0,
      second = 0, microsecond = 0\<rparr>"
    by (simp add: first_of_month_def month_index_def)
  have 0: "first_of_month ?now 0 = \<lparr>year = 2024, month = 5, day = 1, hour = 0, minute = 0,
      second = 0, microsecond = 0\<rparr>"
    by (simp add: first_of_month_def month_index_def)
  have y: "year (first_of_month ?now 29999) = - 476"
    by (simp add: first_of_month_def month_index_def)
  have "max_date_to_search ?now 3 = Inr (first_of_month ?now 2)"
    using max_date_to_search_first_of_month [OF v, of 2 3] 3 by simp
  moreover have "max_date_to_search ?now 0 = Inr (first_of_month ?now 0)"
    using max_date_to_search_first_of_month [OF v, of 0 0] 0 by simp
  moreover have "max_date_to_search ?now 30000 = Inl ValueError"
    using max_date_to_search_first_of_month [OF v, of 29999 30000] y
    by (simp add: fits_c_int_def)
  ultimately show ?thesis using v 3 0 y by simp
qed

text \<open>
  The cutoff is not at midnight: on 2024-05-15 at 13:45:10 the cutoff for three months is
  2024-03-01 at 13:45:10. And not every number of months has a cutoff: thirty thousand
  months lead before the year 1, where building the date raises.
\<close>

theorem max_date_to_search_midnight_counterexample:
  "max_date_to_search \<lparr>year = 2024, month = 5, day = 15, hour = 13, minute = 45, second = 10,
                        microsecond = 0\<rparr> 3
     = Inr \<lparr>year = 2024, month = 3, day = 1, hour = 13, minute = 45, second = 10,
            microsecond = 0\<rparr>
   \<and> max_date_to_search \<lparr>year = 2024, month = 5, day = 15, hour = 13, minute = 45, second = 10,
                          microsecond = 0\<rparr> 3
     \<noteq> Inr \<lparr>year = 2024, month = 3, day = 1, hour = 0, minute = 0, second = 0,
            microsecond = 0\<rparr>
   \<and> max_date_to_search \<lparr>year = 2024, month = 5, day = 15, hour = 13, minute = 45, second = 10,
                          microsecond = 0\<rparr> 30000
     = Inl ValueError"
proof -
  have "max_date_to_search \<lparr>year = 2024, month = 5, day = 15, hour = 13, minute = 45,
          second = 10, microsecond = 0\<rparr> 3
     = Inr \<lparr>year = 2024, month = 3, day = 1, hour = 13, minute = 45, second = 10,
            microsecond = 0\<rparr>"
    by code_simp
  moreover have "max_date_to_search \<lparr>year = 2024, month = 5, day = 15, hour = 13,
          minute = 45, second = 10, microsecond = 0\<rparr> 30000 = Inl ValueError"
    by code_simp
  ultimately show ?thesis by simp
qed

subsection \<open>The traversal\<close>






lemma items_loop_append:
  "items_loop e c p (xs @ ys) news w =
     (case items_loop e c p xs news w of
        (Next news', w') \<Rightarrow> items_loop e c p ys news' w'
      | stop \<Rightarrow> stop)"
proof (induction xs arbitrary: news w)
  case Nil
  then show ?case by simp
next
  case (Cons x xs)
  obtain i el where x: "x = (i, el)" by (cases x)
  obtain f w' where s: "item_step e c p i news w = (f, w')" by (cases "item_step e c p i news w")
  show ?case
    using Cons [of _ w'] x s by (cases f) simp_all
qed

lemma resolve_date_frame:
  assumes "resolve_date e i t w = (r, w')"
  shows "files w' = files w \<and> current w' = current w \<and> clicks w' = clicks w
         \<and> sleeps w' = sleeps w \<and> pages w' = pages w"
  using assms
  by (auto simp: resolve_date_def Let_def split: option.splits sum.splits py_error.splits)

lemma item_step_old:
  assumes "result_item w i = Inr it"
    and "resolve_date e i (data_timestamp it) w = (Inr d, w')"
    and "dt_less d cutoff"
  shows "item_step e cutoff page i news w = (Return news, w')"
  using assms by (simp add: item_step_def)

lemma resolve_date_visible:
  "resolve_date e i t w = (r, w') \<Longrightarrow> pages w' = pages w \<and> current w' = current w"
  by (auto simp: resolve_date_def Let_def split: option.splits sum.splits py_error.splits)

lemma download_visible:
  "download e u f w = (r, w') \<Longrightarrow> pages w' = pages w \<and> current w' = current w"
  by (auto simp: download_def split: option.splits)

lemma item_step_visible:
  assumes "item_step e c p i news w = (r, w')"
  shows "pages w' = pages w \<and> current w' = current w"
proof (cases "result_item w i")
  case (Inl err)
  then show ?thesis using assms by (simp add: item_step_def)
next
  case (Inr it)
  obtain d w1 where rd: "resolve_date e i (data_timestamp it) w = (d, w1)"
    by (cases "resolve_date e i (data_timestamp it) w")
  note v1 = resolve_date_visible [OF rd]
  show ?thesis
  proof (cases d)
    case (Inl err)
    then show ?thesis using assms Inr rd v1 by (simp add: item_step_def)
  next
    case dt: (Inr date_time)
    show ?thesis
    proof (cases "dt_less date_time c")
      case True
      then show ?thesis using assms Inr rd dt v1 by (simp add: item_step_def)
    next
      case False
      obtain x w2 where dl: "download e (img_src it) (filename_of p (data_timestamp it) i) w1 = (x, w2)"
        by (cases "download e (img_src it) (filename_of p (data_timestamp it) i) w1")
      note v2 = download_visible [OF dl]
      show ?thesis
        using assms Inr rd dt False dl v1 v2
        by (cases x) (auto simp: item_step_def Let_def)
    qed
  qed
qed

lemma items_loop_visible:
  "items_loop e c p xs news w = (r, w') \<Longrightarrow> pages w' = pages w \<and> current w' = current w"
proof (induction xs arbitrary: news w)
  case Nil
  then show ?case by simp
next
  case (Cons x xs)
  obtain i el where x: "x = (i, el)" by (cases x)
  obtain f w1 where s: "item_step e c p i news w = (f, w1)" by (cases "item_step e c p i news w")
  note v = item_step_visible [OF s]
  show ?case
  proof (cases f)
    case (Next news1)
    then have "items_loop e c p xs news1 w1 = (r, w')" using Cons.prems x s by simp
    from Cons.IH [OF this] v show ?thesis by simp
  next
    case (Return n)
    then show ?thesis using Cons.prems x s v by auto
  next
    case (Raise err)
    then show ?thesis using Cons.prems x s v by auto
  qed
qed

lemma click_link_intercepted:
  "is_element_visible_next w \<Longrightarrow> intercepted e (clicks w) \<Longrightarrow>
     click_link e w = (Inl ElementClickIntercepted, w\<lparr>clicks := Suc (clicks w)\<rparr>)"
  by (simp add: click_link_def)

lemma click_attempts_all_intercepted:
  assumes "is_element_visible_next w"
    and "intercepted e (clicks w)" "intercepted e (Suc (clicks w))"
    and "intercepted e (Suc (Suc (clicks w)))"
  shows "click_attempts e 3 w = (Inr (), w\<lparr>clicks := clicks w + 3, sleeps := sleeps w + 3\<rparr>)"
  using assms
  by (simp add: numeral_3_eq_3 click_link_def is_element_visible_next_def)

lemma str_of_nat_digits: "set (str_of_nat n) \<subseteq> set ''0123456789''"
proof (induction n rule: str_of_nat.induct)
  case (1 n)
  have d: "''0123456789'' ! k \<in> set ''0123456789''" if "k < 10" for k
    by (rule nth_mem) (use that in simp)
  show ?case
  proof (cases "n < 10")
    case True
    then show ?thesis using d [of n] by (subst str_of_nat.simps) simp
  next
    case False
    then have "set (str_of_nat (n div 10)) \<subseteq> set ''0123456789''" using 1 by simp
    moreover have "''0123456789'' ! (n mod 10) \<in> set ''0123456789''" by (rule d) simp
    ultimately show ?thesis using False by (subst str_of_nat.simps) simp
  qed
qed

lemma filename_of_no_slash:
  assumes "CHR ''/'' \<notin> set ts"
  shows "CHR ''/'' \<notin> set (filename_of p (Some ts) i)"
proof -
  have "CHR ''/'' \<notin> set (str_of_nat k)" for k
    using str_of_nat_digits [of k] by auto
  then show ?thesis using assms by (simp add: filename_of_def)
qed

text \<open>
  C4. When the inner loop comes to an entry whose date, as resolved, is strictly earlier than
  the cutoff, \<open>get_news\<close> returns at once the list collected from the entries before it:
  that entry and the later ones are not processed, nothing more is downloaded and no link
  is clicked. The entries before it are \<open>earlier\<close>, processed in full from the head of the
  round; the browser shows a page with a link to the next page, as every round of the
  outer loop requires.
\<close>

theorem get_news_stops_at_old_item:
  assumes "is_element_visible_next w"
    and "items_loop e cutoff page earlier news w = (Next collected, w1)"
    and "result_item w1 i = Inr it"
    and "resolve_date e i (data_timestamp it) w1 = (Inr d, w2)"
    and "dt_less d cutoff"
  shows "news_loop (Suc fuel) e cutoff (earlier @ (i, el) # later) page news w
           = Some (Inr collected, w2)
         \<and> files w2 = files w1 \<and> current w2 = current w1 \<and> clicks w2 = clicks w1"
proof -
  have "item_step e cutoff page i collected w1 = (Return collected, w2)"
    using assms(3-5) by (rule item_step_old)
  then have "items_loop e cutoff page ((i, el) # later) collected w1 = (Return collected, w2)"
    by simp
  then have "items_loop e cutoff page (earlier @ (i, el) # later) news w = (Return collected, w2)"
    using assms(2) by (simp add: items_loop_append)
  then have "news_loop (Suc fuel) e cutoff (earlier @ (i, el) # later) page news w
           = Some (Inr collected, w2)"
    using assms(1) by simp
  then show ?thesis using resolve_date_frame [OF assms(4)] by simp
qed

text \<open>
  The run of the specification: the first page lists an entry of 2024-04-10 and one of
  2024-02-20, the clock reads 2024-05-15 and three months are asked for, so the cutoff is
  2024-03-01. One article is collected, the first; the second entry ends the run before
  anything is downloaded for it.
\<close>

theorem get_news_stops_at_old_item_witness:
  "dt_less \<lparr>year = 2024, month = 2, day = 20, hour = 0, minute = 0, second = 0, microsecond = 0\<rparr>
           \<lparr>year = 2024, month = 3, day = 1, hour = 0, minute = 0, second = 0, microsecond = 0\<rparr>
   \<and> max_date_to_search midnight_2024_05_15 3
       = Inr \<lparr>year = 2024, month = 3, day = 1, hour = 0, minute = 0, second = 0,
              microsecond = 0\<rparr>
   \<and> get_news (Suc 0) (utc_env (\<lambda>n. midnight_2024_05_15) (\<lambda>n. False)) 3
        (start_world [[entry ''1712707200000'' ''first'', entry ''1708387200000'' ''second''],
                      [entry ''1708300800000'' ''third'']])
       = Some (Inr [\<lparr>title = ''first'',
                      date = \<lparr>year = 2024, month = 4, day = 10, hour = 0, minute = 0,
                              second = 0, microsecond = 0\<rparr>,
                      description = ''about first'',
                      image_url = ''0-1712707200000-1.png''\<rparr>],
               (start_world [[entry ''1712707200000'' ''first'', entry ''1708387200000'' ''second''],
                             [entry ''1708300800000'' ''third'']])
                 \<lparr>ticks := 3, files := [''0-1712707200000-1.png'']\<rparr>)"
proof -
  let ?e = "utc_env (\<lambda>n. midnight_2024_05_15) (\<lambda>n. False)"
  let ?a = "entry ''1712707200000'' ''first''"
  let ?b = "entry ''1708387200000'' ''second''"
  let ?site = "[[?a, ?b], [entry ''1708300800000'' ''third'']]"
  let ?c = "\<lparr>year = 2024, month = 3, day = 1, hour = 0, minute = 0, second = 0,
              microsecond = 0\<rparr> :: datetime"
  let ?d = "\<lparr>year = 2024, month = 2, day = 20, hour = 0, minute = 0, second = 0,
              microsecond = 0\<rparr> :: datetime"
  let ?A = "\<lparr>title = ''first'',
             date = \<lparr>year = 2024, month = 4, day = 10, hour = 0, minute = 0,
                     second = 0, microsecond = 0\<rparr>,
             description = ''about first'', image_url = ''0-1712707200000-1.png''\<rparr>"
  let ?w = "(start_world ?site)\<lparr>ticks := 1\<rparr>"
  let ?w1 = "(start_world ?site)\<lparr>ticks := 2, files := [''0-1712707200000-1.png'']\<rparr>"
  let ?w2 = "(start_world ?site)\<lparr>ticks := 3, files := [''0-1712707200000-1.png'']\<rparr>"
  have cutoff: "max_date_to_search midnight_2024_05_15 3 = Inr ?c" by code_simp
  have vis: "is_element_visible_next ?w" by code_simp
  have pre: "items_loop ?e ?c 0 [(1, ?a)] [] ?w = (Next [?A], ?w1)" by code_simp
  have it: "result_item ?w1 2 = Inr ?b" by code_simp
  have d: "resolve_date ?e 2 (data_timestamp ?b) ?w1 = (Inr ?d, ?w2)" by code_simp
  have old: "dt_less ?d ?c" by code_simp
  from get_news_stops_at_old_item [OF vis pre it d old, of 0 ?b "[]"]
  have loop: "news_loop (Suc 0) ?e ?c ([(1, ?a)] @ [(2, ?b)]) 0 [] ?w = Some (Inr [?A], ?w2)"
    by blast
  have "get_news (Suc 0) ?e 3 (start_world ?site)
          = news_loop (Suc 0) ?e ?c ([(1, ?a)] @ [(2, ?b)]) 0 [] ?w"
    by code_simp
  with loop have "get_news (Suc 0) ?e 3 (start_world ?site) = Some (Inr [?A], ?w2)"
    by (simp only:)
  with old cutoff show ?thesis by (simp only: simp_thms)
qed




text \<open>
  C1, on the code. The list of results is looked up once, before the outer loop, and every
  round enumerates that list while it reads the entries of the page on display. On a site
  whose second page lists two entries after a first page of one, the second entry of the
  second page is never read; on a site whose second page lists one entry after a first page
  of two, the second round asks for an entry that is not there. (In both runs the third
  attempt of every round of clicks goes through, so that each round moves one page on.)
\<close>

theorem get_news_enumerates_first_listing:
  "outcome (get_news 3 (utc_env (\<lambda>n. midnight_2024_05_15) (\<lambda>n. n mod 3 \<noteq> 2)) 1
      (start_world [[entry ''1715731200000'' ''a''],
                    [entry ''1715731200000'' ''b'', entry ''1715731200000'' ''c''],
                    [entry ''1715731200000'' ''d'']]))
     = Some (Inr [''a'', ''b''], 2)
   \<and> outcome (get_news 3 (utc_env (\<lambda>n. midnight_2024_05_15) (\<lambda>n. n mod 3 \<noteq> 2)) 1
      (start_world [[entry ''1715731200000'' ''a'', entry ''1715731200000'' ''b''],
                    [entry ''1715731200000'' ''c''],
                    [entry ''1715731200000'' ''d'']]))
     = Some (Inl ElementNotFound, 1)"
  by code_simp

text \<open>
  C2, on the code. The loop of three attempts has no exit after a click that went through:
  when no click is intercepted, all three go through and one round moves three pages on.
  On a site of seven pages the run collects the entries of the first and of the fourth page
  and ends on the seventh.
\<close>

theorem get_news_clicks_three_times:
  "click_attempts (utc_env (\<lambda>n. midnight_2024_05_15) (\<lambda>n. False)) 3
      (start_world [[entry ''1715731200000'' ''a''], [entry ''1715731200000'' ''b''],
                    [entry ''1715731200000'' ''c''], [entry ''1715731200000'' ''d''],
                    [entry ''1715731200000'' ''e''], [entry ''1715731200000'' ''f''],
                    [entry ''1715731200000'' ''g'']])
     = (Inr (),
        (start_world [[entry ''1715731200000'' ''a''], [entry ''1715731200000'' ''b''],
                      [entry ''1715731200000'' ''c''], [entry ''1715731200000'' ''d''],
                      [entry ''1715731200000'' ''e''], [entry ''1715731200000'' ''f''],
                      [entry ''1715731200000'' ''g'']])
          \<lparr>current := 3, clicks := 3\<rparr>)
   \<and> outcome (get_news 3 (utc_env (\<lambda>n. midnight_2024_05_15) (\<lambda>n. False)) 1
      (start_world [[entry ''1715731200000'' ''a''], [entry ''1715731200000'' ''b''],
                    [entry ''1715731200000'' ''c''], [entry ''1715731200000'' ''d''],
                    [entry ''1715731200000'' ''e''], [entry ''1715731200000'' ''f''],
                    [entry ''1715731200000'' ''g'']]))
     = Some (Inr [''a'', ''d''], 6)"
  by code_simp

subsection \<open>Further properties of the traversal\<close>

text \<open>
  When all three attempts of a round are intercepted, nothing is raised: the program has
  slept three times, the browser shows the same page, and the outer loop goes into its
  next round, where it looks for the link again.
\<close>

theorem retry_exhaustion:
  assumes "is_element_visible_next w"
    and "items_loop e cutoff page search_results news w = (Next collected, w1)"
    and "intercepted e (clicks w1)" "intercepted e (Suc (clicks w1))"
    and "intercepted e (Suc (Suc (clicks w1)))"
  shows "click_attempts e 3 w1 = (Inr (), w1\<lparr>clicks := clicks w1 + 3, sleeps := sleeps w1 + 3\<rparr>)
         \<and> news_loop (Suc fuel) e cutoff search_results page news w =
             news_loop fuel e cutoff search_results (Suc page) collected
               (w1\<lparr>clicks := clicks w1 + 3, sleeps := sleeps w1 + 3\<rparr>)"
proof -
  have vis: "is_element_visible_next w1"
    using assms(1) items_loop_visible [OF assms(2)] by (simp add: is_element_visible_next_def)
  have c: "click_attempts e 3 w1 = (Inr (), w1\<lparr>clicks := clicks w1 + 3, sleeps := sleeps w1 + 3\<rparr>)"
    using click_attempts_all_intercepted [OF vis assms(3-5)] .
  then show ?thesis using assms(1,2) by simp
qed

text \<open>A round on a site of two pages under an overlay that never goes away.\<close>

theorem retry_exhaustion_witness:
  "click_attempts (utc_env (\<lambda>n. midnight_2024_05_15) (\<lambda>n. True)) 3
      ((start_world [[entry ''1715731200000'' ''a''], [entry ''1715731200000'' ''b'']])
         \<lparr>ticks := 2, files := [''0-1715731200000-1.png'']\<rparr>)
     = (Inr (),
        (start_world [[entry ''1715731200000'' ''a''], [entry ''1715731200000'' ''b'']])
          \<lparr>ticks := 2, clicks := 3, sleeps := 3, files := [''0-1715731200000-1.png'']\<rparr>)"
proof -
  let ?e = "utc_env (\<lambda>n. midnight_2024_05_15) (\<lambda>n. True)"
  let ?a = "entry ''1715731200000'' ''a''"
  let ?site = "[[?a], [entry ''1715731200000'' ''b'']]"
  let ?c = "\<lparr>year = 2024, month = 5, day = 1, hour = 0, minute = 0, second = 0,
              microsecond = 0\<rparr> :: datetime"
  let ?A = "\<lparr>title = ''a'', date = midnight_2024_05_15, description = ''about a'',
             image_url = ''0-1715731200000-1.png''\<rparr>"
  let ?w = "(start_world ?site)\<lparr>ticks := 1\<rparr>"
  let ?w1 = "(start_world ?site)\<lparr>ticks := 2, files := [''0-1715731200000-1.png'']\<rparr>"
  have 1: "is_element_visible_next ?w" by code_simp
  have 2: "items_loop ?e ?c 0 [(1, ?a)] [] ?w = (Next [?A], ?w1)" by code_simp
  have 3: "intercepted ?e (clicks ?w1)" "intercepted ?e (Suc (clicks ?w1))"
    "intercepted ?e (Suc (Suc (clicks ?w1)))" by code_simp+
  from retry_exhaustion [OF 1 2 3, of 0]
  have "click_attempts ?e 3 ?w1 = (Inr (), ?w1\<lparr>clicks := clicks ?w1 + 3, sleeps := sleeps ?w1 + 3\<rparr>)"
    by blast
  moreover have "?w1\<lparr>clicks := clicks ?w1 + 3, sleeps := sleeps ?w1 + 3\<rparr>
      = (start_world ?site)
          \<lparr>ticks := 2, clicks := 3, sleeps := 3, files := [''0-1715731200000-1.png'']\<rparr>"
    by code_simp
  ultimately show ?thesis by (simp only:)
qed

text \<open>
  When an entry has no \<^verbatim>\<open>data-timestamp\<close> attribute, the browser answers \<^verbatim>\<open>None\<close>, the
  conversion raises \<^verbatim>\<open>TypeError\<close>, which the handler for \<^verbatim>\<open>ValueError\<close> lets pass, and
  the exception leaves \<open>get_news\<close>: the articles collected so far are not returned.
\<close>

theorem absent_timestamp_raises:
  assumes "is_element_visible_next w"
    and "items_loop e cutoff page earlier news w = (Next collected, w1)"
    and "result_item w1 i = Inr it" and "data_timestamp it = None"
  shows "news_loop (Suc fuel) e cutoff (earlier @ (i, el) # later) page news w
           = Some (Inl TypeError, w1\<lparr>ticks := Suc (ticks w1)\<rparr>)"
proof -
  have "item_step e cutoff page i collected w1 = (Raise TypeError, w1\<lparr>ticks := Suc (ticks w1)\<rparr>)"
    using assms(3,4) by (simp add: item_step_def resolve_date_def Let_def)
  then have "items_loop e cutoff page ((i, el) # later) collected w1
               = (Raise TypeError, w1\<lparr>ticks := Suc (ticks w1)\<rparr>)"
    by simp
  then have "items_loop e cutoff page (earlier @ (i, el) # later) news w
               = (Raise TypeError, w1\<lparr>ticks := Suc (ticks w1)\<rparr>)"
    using assms(2) by (simp add: items_loop_append)
  then show ?thesis using assms(1) by simp
qed

text \<open>The second entry of a page lacks the attribute.\<close>

theorem absent_timestamp_raises_witness:
  "get_news (Suc 0) (utc_env (\<lambda>n. midnight_2024_05_15) (\<lambda>n. False)) 1
      (start_world [[entry ''1715731200000'' ''a'',
                     (entry ''1715731200000'' ''b'')\<lparr>data_timestamp := None\<rparr>],
                    [entry ''1715731200000'' ''c'']])
     = Some (Inl TypeError,
        (start_world [[entry ''1715731200000'' ''a'',
                       (entry ''1715731200000'' ''b'')\<lparr>data_timestamp := None\<rparr>],
                      [entry ''1715731200000'' ''c'']])
          \<lparr>ticks := 3, files := [''0-1715731200000-1.png'']\<rparr>)"
proof -
  let ?e = "utc_env (\<lambda>n. midnight_2024_05_15) (\<lambda>n. False)"
  let ?a = "entry ''1715731200000'' ''a''"
  let ?b = "(entry ''1715731200000'' ''b'')\<lparr>data_timestamp := None\<rparr>"
  let ?site = "[[?a, ?b], [entry ''1715731200000'' ''c'']]"
  let ?c = "\<lparr>year = 2024, month = 5, day = 1, hour = 0, minute = 0, second = 0,
              microsecond = 0\<rparr> :: datetime"
  let ?A = "\<lparr>title = ''a'', date = midnight_2024_05_15, description = ''about a'',
             image_url = ''0-1715731200000-1.png''\<rparr>"
  let ?w = "(start_world ?site)\<lparr>ticks := 1\<rparr>"
  let ?w1 = "(start_world ?site)\<lparr>ticks := 2, files := [''0-1715731200000-1.png'']\<rparr>"
  have 1: "is_element_visible_next ?w" by code_simp
  have 2: "items_loop ?e ?c 0 [(1, ?a)] [] ?w = (Next [?A], ?w1)" by code_simp
  have 3: "result_item ?w1 2 = Inr ?b" by code_simp
  have 4: "data_timestamp ?b = None" by code_simp
  from absent_timestamp_raises [OF 1 2 3 4, of 0 ?b "[]"]
  have "news_loop (Suc 0) ?e ?c ([(1, ?a)] @ [(2, ?b)]) 0 [] ?w
          = Some (Inl TypeError, ?w1\<lparr>ticks := Suc (ticks ?w1)\<rparr>)" .
  moreover have "get_news (Suc 0) ?e 1 (start_world ?site)
          = news_loop (Suc 0) ?e ?c ([(1, ?a)] @ [(2, ?b)]) 0 [] ?w"
    by code_simp
  moreover have "?w1\<lparr>ticks := Suc (ticks ?w1)\<rparr>
      = (start_world ?site)\<lparr>ticks := 3, files := [''0-1715731200000-1.png'']\<rparr>"
    by code_simp
  ultimately show ?thesis by (simp only:)
qed

text \<open>
  The entries of a page without a link to the next page are never collected: the outer loop
  ends before it reads them. On a site of one page \<open>get_news\<close> returns the empty list.
\<close>

theorem last_page_not_collected:
  assumes "\<not> is_element_visible_next w"
  shows "news_loop (Suc fuel) e cutoff search_results page news w = Some (Inr news, w)
         \<and> (max_date_to_search (clock e (ticks w)) months = Inr cutoff
              \<longrightarrow> get_news (Suc fuel) e months w = Some (Inr [], w\<lparr>ticks := Suc (ticks w)\<rparr>))"
  using assms by (simp add: get_news_def Let_def is_element_visible_next_def)

text \<open>A site of one page with one entry.\<close>

theorem last_page_not_collected_witness:
  "\<not> is_element_visible_next (start_world [[entry ''1715731200000'' ''a'']])
   \<and> get_news (Suc 0) (utc_env (\<lambda>n. midnight_2024_05_15) (\<lambda>n. False)) 1
        (start_world [[entry ''1715731200000'' ''a'']])
       = Some (Inr [], (start_world [[entry ''1715731200000'' ''a'']])\<lparr>ticks := 1\<rparr>)"
proof -
  let ?e = "utc_env (\<lambda>n. midnight_2024_05_15) (\<lambda>n. False)"
  let ?w = "start_world [[entry ''1715731200000'' ''a'']]"
  let ?c = "\<lparr>year = 2024, month = 5, day = 1, hour = 0, minute = 0, second = 0,
              microsecond = 0\<rparr> :: datetime"
  have 1: "\<not> is_element_visible_next ?w" by code_simp
  have 2: "max_date_to_search (clock ?e (ticks ?w)) 1 = Inr ?c" by code_simp
  from last_page_not_collected [OF 1, of 0 ?e ?c "[]" 0 "[]" 1] 2
  have "get_news (Suc 0) ?e 1 ?w = Some (Inr [], ?w\<lparr>ticks := Suc (ticks ?w)\<rparr>)"
    by blast
  moreover have "?w\<lparr>ticks := Suc (ticks ?w)\<rparr> = ?w\<lparr>ticks := 1\<rparr>" by code_simp
  ultimately show ?thesis using 1 by (simp only: simp_thms)
qed

text \<open>
  The outer loop need not end. When every click is intercepted and every round of the inner
  loop runs through the entries without a return or an exception, the browser stays on a
  page that has a link to the next page, and no number of rounds is enough: the entries of
  that page are collected again in each round.
\<close>

lemma news_loop_under_overlay:
  assumes "\<forall>n. intercepted e n"
    and "is_element_visible_next w0"
    and "\<forall>p news w. pages w = pages w0 \<and> current w = current w0
           \<longrightarrow> (\<exists>news' w'. items_loop e cutoff p search_results news w = (Next news', w'))"
  shows "pages w = pages w0 \<Longrightarrow> current w = current w0
           \<Longrightarrow> news_loop fuel e cutoff search_results page news w = None"
proof (induction fuel arbitrary: page news w)
  case 0
  then show ?case by simp
next
  case (Suc fuel)
  have vis: "is_element_visible_next w"
    using assms(2) Suc.prems by (simp add: is_element_visible_next_def)
  obtain news' w' where round: "items_loop e cutoff page search_results news w = (Next news', w')"
    using assms(3) Suc.prems by blast
  have same: "pages w' = pages w0" "current w' = current w0"
    using items_loop_visible [OF round] Suc.prems by simp_all
  have vis': "is_element_visible_next w'"
    using assms(2) same by (simp add: is_element_visible_next_def)
  have clicks: "click_attempts e 3 w' = (Inr (), w'\<lparr>clicks := clicks w' + 3, sleeps := sleeps w' + 3\<rparr>)"
    using click_attempts_all_intercepted [OF vis'] assms(1) by blast
  have "news_loop fuel e cutoff search_results (Suc page) news'
          (w'\<lparr>clicks := clicks w' + 3, sleeps := sleeps w' + 3\<rparr>) = None"
    using Suc.IH [of "w'\<lparr>clicks := clicks w' + 3, sleeps := sleeps w' + 3\<rparr>"] same by simp
  then show ?case using vis round clicks by simp
qed

theorem get_news_may_run_forever:
  assumes "\<forall>n. intercepted e n"
    and "is_element_visible_next w"
    and "max_date_to_search (clock e (ticks w)) months = Inr cutoff"
    and "\<forall>p news w'. pages w' = pages w \<and> current w' = current w
           \<longrightarrow> (\<exists>news' w''. items_loop e cutoff p (enumerate 1 (find_elements w)) news w'
                                 = (Next news', w''))"
  shows "get_news fuel e months w = None"
proof -
  let ?w = "w\<lparr>ticks := Suc (ticks w)\<rparr>"
  have "news_loop fuel e cutoff (enumerate 1 (find_elements w)) 0 [] ?w = None"
    by (rule news_loop_under_overlay [OF assms(1,2,4)]) simp_all
  then show ?thesis using assms(3) by (simp add: get_news_def Let_def)
qed

text \<open>A site of two pages under an overlay that never goes away.\<close>

theorem get_news_may_run_forever_witness:
  "\<forall>fuel. get_news fuel (utc_env (\<lambda>n. midnight_2024_05_15) (\<lambda>n. True)) 1
      (start_world [[entry ''1715731200000'' ''a''], [entry ''1715731200000'' ''b'']]) = None"
proof
  fix fuel
  let ?e = "utc_env (\<lambda>n. midnight_2024_05_15) (\<lambda>n. True)"
  let ?a = "entry ''1715731200000'' ''a''"
  let ?w = "start_world [[?a], [entry ''1715731200000'' ''b'']]"
  let ?c = "\<lparr>year = 2024, month = 5, day = 1, hour = 0, minute = 0, second = 0,
              microsecond = 0\<rparr> :: datetime"
  have 1: "\<forall>n. intercepted ?e n" by (simp add: utc_env_def)
  have 2: "is_element_visible_next ?w" by code_simp
  have 3: "max_date_to_search (clock ?e (ticks ?w)) 1 = Inr ?c" by code_simp
  have sr: "enumerate 1 (find_elements ?w) = [(1, ?a)]" by code_simp
  have n: "int_of_str ?e ''1715731200000'' = Some 1715731200000" by code_simp
  have d: "fromtimestamp ?e 1715731200000 = Inr midnight_2024_05_15" by code_simp
  have fresh: "\<not> dt_less midnight_2024_05_15 ?c" by code_simp
  have u: "urlretrieve ?e ''https://example.org/a.jpg''
             (filename_of p (Some ''1715731200000'') 1) = None" for p
    using filename_of_no_slash [of "''1715731200000''" p 1] by (simp add: utc_env_def)
  have a: "data_timestamp ?a = Some ''1715731200000''"
    "img_src ?a = Some ''https://example.org/a.jpg''" by code_simp+
  have 4: "\<forall>p news w'. pages w' = pages ?w \<and> current w' = current ?w
           \<longrightarrow> (\<exists>news' w''. items_loop ?e ?c p (enumerate 1 (find_elements ?w)) news w'
                                 = (Next news', w''))"
  proof (intro allI impI)
    fix p news and w' :: world
    assume same: "pages w' = pages ?w \<and> current w' = current ?w"
    then have "find_elements w' = [?a]"
      by (simp add: find_elements_def start_world_def)
    then have "result_item w' 1 = Inr ?a" by (simp add: result_item_def)
    then have "\<exists>news' w''. item_step ?e ?c p 1 news w' = (Next news', w'')"
      using n d fresh u a
      by (simp add: item_step_def resolve_date_def download_def Let_def)
    then show "\<exists>news' w''. items_loop ?e ?c p (enumerate 1 (find_elements ?w)) news w'
                 = (Next news', w'')"
      unfolding sr by auto
  qed
  from get_news_may_run_forever [OF 1 2 3 4]
  show "get_news fuel ?e 1 ?w = None" .
qed

end
